theory Spec2Isabelle
  imports
    Complex_Main
    "HOL-Library.Char_ord"
    "HOL-Library.List_Lexorder"
    "HOL-Library.Multiset"
    "HOL-Library.Product_Lexorder"
begin

section \<open>Persisted data\<close>

text \<open>
  The tables of the relational store, one record per row type. Identifiers are the
  auto-incremented integer keys of the store; a timestamp is a number of milliseconds.
  Hours and budgets are JavaScript numbers in the routes; they are modelled as exact
  rationals. A string is the list of its UTF-8 bytes.
\<close>

type_synonym timestamp = int

record activity =
  a_id :: int
  a_destination :: string
  a_name :: string
  a_type :: string
  durationHours :: rat
  priceLevel :: int

record trip =
  t_id :: int
  t_userId :: int
  t_destination :: string
  t_daysCount :: int
  t_budget :: "rat option"
  t_interests :: string
  regenLockUntil :: "timestamp option"

record dayPlan =
  dp_id :: int
  dp_tripId :: int
  dayNumber :: int

record plannedActivity =
  pa_id :: int
  dayPlanId :: int
  activityId :: int
  orderIndex :: int

text \<open>
  The store: every table is the list of its rows in insertion order, and every
  auto-incremented key has its counter.
\<close>

record store =
  tripTable :: "trip list"
  dayPlanTable :: "dayPlan list"
  plannedActivityTable :: "plannedActivity list"
  activityTable :: "activity list"
  nextTripId :: int
  nextDayPlanId :: int
  nextPlannedActivityId :: int

section \<open>Faults of the store and of the planner\<close>

text \<open>
  Every awaited call on the store may reject. The calls of the two handlers are named
  here, and a predicate on these names (\<open>faulty\<close> below) says which of them reject
  during a request: it is the simulated failure of the persistence boundary.
\<close>

datatype dbop =
    OpFindBase
  | OpAcquireLock
  | OpFindActivities
  | OpTxFindDayPlans
  | OpTxDeletePlannedActivities
  | OpTxDeleteDayPlans
  | OpTxUpdateTrip
  | OpTxCreateTrip
  | OpTxCreateDayPlan int
  | OpTxCreatePlannedActivity int nat
  | OpTxFindTrip
  | OpTxCommit
  | OpUnlock

datatype fault = DbFault dbop | RecordNotFound | PlannerFault

section \<open>Requests, plans and responses\<close>

text \<open>\<open>Number(x)\<close> as the handlers test it: an integer, or anything else.\<close>

datatype num_value = Integer int | NonInteger

text \<open>The \<open>interests\<close> member of the body of a regeneration request.\<close>

datatype body_value = Undefined | NotAString | Str string

record request =
  req_userId :: int
  req_idParam :: num_value
  req_interests :: body_value
  req_now :: timestamp
  req_dateNow :: timestamp

text \<open>The object returned by \<open>generateItinerary\<close>.\<close>

record plan =
  days :: "activity list list"
  warning :: "string option"

text \<open>
  \<open>generateItinerary\<close> lives in the planner service; the handlers take it as a
  parameter: from the activities, the day count and the interest string to a plan, or a
  thrown fault.
\<close>

type_synonym planner = "activity list \<Rightarrow> int \<Rightarrow> string \<Rightarrow> fault + plan"

text \<open>
  The trip returned to the caller, with its day plans by ascending day number and the
  planned activities of each by ascending order index (the joined activity rows are left
  out).
\<close>

type_synonym trip_view = "trip \<times> (dayPlan \<times> plannedActivity list) list"

datatype response =
    Message nat string
  | TripJson nat "trip_view option" "string option"

fun status :: "response \<Rightarrow> nat" where
  "status (Message n m) = n"
| "status (TripJson n v w) = n"

fun warningOf :: "response \<Rightarrow> string option" where
  "warningOf (Message n m) = None"
| "warningOf (TripJson n v w) = w"

definition serverError :: response where
  "serverError = Message 500 ''Server error''"

section \<open>Operations of the store\<close>

definition findUniqueTrip :: "int \<Rightarrow> store \<Rightarrow> trip option" where
  "findUniqueTrip tripId s = find (\<lambda>t. t_id t = tripId) (tripTable s)"

text \<open>\<open>updateMany\<close> on the trip table: the number of rows matched, and the new store.\<close>

definition updateManyTrips :: "(trip \<Rightarrow> bool) \<Rightarrow> (trip \<Rightarrow> trip) \<Rightarrow> store \<Rightarrow> nat \<times> store" where
  "updateManyTrips P f s =
     (length (filter P (tripTable s)),
      s\<lparr>tripTable := map (\<lambda>t. if P t then f t else t) (tripTable s)\<rparr>)"

definition lockTtlMs :: int where
  "lockTtlMs = 2 * 60 * 1000"

text \<open>
  The \<open>where\<close> clause of the acquisition: the trip of the caller, with the lock missing
  or strictly before \<open>now\<close>.
\<close>

definition lockFree :: "int \<Rightarrow> int \<Rightarrow> timestamp \<Rightarrow> trip \<Rightarrow> bool" where
  "lockFree tripId userId now t \<longleftrightarrow>
     t_id t = tripId \<and> t_userId t = userId \<and>
     (regenLockUntil t = None \<or> (case regenLockUntil t of None \<Rightarrow> False | Some u \<Rightarrow> u < now))"

definition acquireLock :: "request \<Rightarrow> int \<Rightarrow> store \<Rightarrow> nat \<times> store" where
  "acquireLock req tripId s =
     updateManyTrips (lockFree tripId (req_userId req) (req_now req))
       (\<lambda>t. t\<lparr>regenLockUntil := Some (req_dateNow req + lockTtlMs)\<rparr>) s"

text \<open>The \<open>finally\<close> block: clear the lock of the caller's trip; a rejection is ignored.\<close>

definition unlock :: "(dbop \<Rightarrow> bool) \<Rightarrow> int \<Rightarrow> int \<Rightarrow> store \<Rightarrow> store" where
  "unlock faulty tripId userId s =
     (if faulty OpUnlock then s
      else snd (updateManyTrips (\<lambda>t. t_id t = tripId \<and> t_userId t = userId)
                  (\<lambda>t. t\<lparr>regenLockUntil := None\<rparr>) s))"

text \<open>
  \<open>String.prototype.trim\<close> removes the white space and the line terminators of
  ECMAScript from both ends of a string. A string is the list of its UTF-8 bytes, so each
  of these characters is the list of the bytes that encode it: U+0009 to U+000D, U+0020,
  U+00A0, U+1680, U+2000 to U+200A, U+2028, U+2029, U+202F, U+205F, U+3000 and U+FEFF.
\<close>

definition whiteSpace :: "string list" where
  "whiteSpace =
     [[CHR 0x09], [CHR 0x0A], [CHR 0x0B], [CHR 0x0C], [CHR 0x0D], [CHR 0x20],
      [CHR 0xC2, CHR 0xA0],
      [CHR 0xE1, CHR 0x9A, CHR 0x80],
      [CHR 0xE2, CHR 0x80, CHR 0x80], [CHR 0xE2, CHR 0x80, CHR 0x81],
      [CHR 0xE2, CHR 0x80, CHR 0x82], [CHR 0xE2, CHR 0x80, CHR 0x83],
      [CHR 0xE2, CHR 0x80, CHR 0x84], [CHR 0xE2, CHR 0x80, CHR 0x85],
      [CHR 0xE2, CHR 0x80, CHR 0x86], [CHR 0xE2, CHR 0x80, CHR 0x87],
      [CHR 0xE2, CHR 0x80, CHR 0x88], [CHR 0xE2, CHR 0x80, CHR 0x89],
      [CHR 0xE2, CHR 0x80, CHR 0x8A],
      [CHR 0xE2, CHR 0x80, CHR 0xA8], [CHR 0xE2, CHR 0x80, CHR 0xA9],
      [CHR 0xE2, CHR 0x80, CHR 0xAF],
      [CHR 0xE2, CHR 0x81, CHR 0x9F],
      [CHR 0xE3, CHR 0x80, CHR 0x80],
      [CHR 0xEF, CHR 0xBB, CHR 0xBF]]"

text \<open>Remove from the front of the string every leading occurrence of one of the codes.\<close>

function stripLeading :: "string list \<Rightarrow> string \<Rightarrow> string" where
  "stripLeading codes str =
     (case find (\<lambda>w. w \<noteq> [] \<and> take (length w) str = w) codes of
        None \<Rightarrow> str
      | Some w \<Rightarrow> stripLeading codes (drop (length w) str))"
  by pat_completeness auto
termination
proof (relation "measure (\<lambda>(codes, str). length str)")
  fix codes :: "string list" and str w :: string
  assume "find (\<lambda>w. w \<noteq> [] \<and> take (length w) str = w) codes = Some w"
  then have "w \<noteq> []" and "take (length w) str = w"
    by (auto simp: find_Some_iff)
  then have "0 < length w" and "length w \<le> length str"
    using length_take [of "length w" str] by simp_all
  then have "length str - length w < length str"
    by arith
  then show "((codes, drop (length w) str), (codes, str)) \<in> measure (\<lambda>(codes, str). length str)"
    by simp
qed simp

declare stripLeading.simps [simp del]

definition trim :: "string \<Rightarrow> string" where
  "trim str = rev (stripLeading (map rev whiteSpace) (rev (stripLeading whiteSpace str)))"

definition findManyActivities :: "string \<Rightarrow> store \<Rightarrow> activity list" where
  "findManyActivities dest s = filter (\<lambda>a. a_destination a = dest) (activityTable s)"

text \<open>\<open>plan.days[d - 1] ?? []\<close>: a day the plan does not have is empty.\<close>

definition dayItems :: "plan \<Rightarrow> int \<Rightarrow> activity list" where
  "dayItems p d = (if 1 \<le> d \<and> nat (d - 1) < length (days p) then days p ! nat (d - 1) else [])"

text \<open>The plan synthesized when the destination has no activity.\<close>

definition emptyPlan :: "int \<Rightarrow> plan" where
  "emptyPlan n = \<lparr>days = replicate (nat n) [], warning = Some ''No activities found for destination''\<rparr>"

text \<open>
  The check of the override of the interests: a body that gives one must give a string
  that is not blank.
\<close>

definition overrideInvalid :: "body_value \<Rightarrow> bool" where
  "overrideInvalid incoming =
     (case incoming of
        Undefined \<Rightarrow> False
      | NotAString \<Rightarrow> True
      | Str i \<Rightarrow> trim i = [])"

text \<open>
  The interests the regeneration runs with: the trimmed override of the body when it is a
  string that is not blank, the stored interests of the trip otherwise.
\<close>

definition effectiveInterests :: "request \<Rightarrow> trip \<Rightarrow> string" where
  "effectiveInterests req base =
     (case req_interests req of
        Str incoming \<Rightarrow> if trim incoming \<noteq> [] then trim incoming else t_interests base
      | _ \<Rightarrow> t_interests base)"

text \<open>The plan of a regeneration: synthesized for an empty catalog, the planner's otherwise.\<close>

definition generatedPlan :: "planner \<Rightarrow> activity list \<Rightarrow> trip \<Rightarrow> string \<Rightarrow> fault + plan" where
  "generatedPlan gen acts base eff =
     (if length acts = 0 then Inr (emptyPlan (t_daysCount base))
      else gen acts (t_daysCount base) eff)"

subsection \<open>The writes of a (re)generation\<close>

text \<open>The loop \<open>for (d = 1; d <= daysCount; d++) tx.dayPlan.create\<close>, over its day numbers.\<close>

fun createDayPlans :: "(dbop \<Rightarrow> bool) \<Rightarrow> int \<Rightarrow> int list \<Rightarrow> store \<Rightarrow> fault + (dayPlan list \<times> store)" where
  "createDayPlans faulty tripId [] s = Inr ([], s)"
| "createDayPlans faulty tripId (d # ds) s =
     (if faulty (OpTxCreateDayPlan d) then Inl (DbFault (OpTxCreateDayPlan d))
      else
        let dp = \<lparr>dp_id = nextDayPlanId s, dp_tripId = tripId, dayNumber = d\<rparr>;
            s' = s\<lparr>dayPlanTable := dayPlanTable s @ [dp], nextDayPlanId := nextDayPlanId s + 1\<rparr>
        in case createDayPlans faulty tripId ds s' of
             Inl e \<Rightarrow> Inl e
           | Inr (dps, s'') \<Rightarrow> Inr (dp # dps, s''))"

text \<open>The inner loop over the items of one day, from index \<open>i\<close> on.\<close>

fun createPlannedForDay :: "(dbop \<Rightarrow> bool) \<Rightarrow> int \<Rightarrow> int \<Rightarrow> nat \<Rightarrow> activity list \<Rightarrow> store \<Rightarrow> fault + store" where
  "createPlannedForDay faulty d dpId i [] s = Inr s"
| "createPlannedForDay faulty d dpId i (a # as) s =
     (if faulty (OpTxCreatePlannedActivity d i) then Inl (DbFault (OpTxCreatePlannedActivity d i))
      else
        createPlannedForDay faulty d dpId (Suc i) as
          (s\<lparr>plannedActivityTable := plannedActivityTable s @
                [\<lparr>pa_id = nextPlannedActivityId s, dayPlanId = dpId,
                  activityId = a_id a, orderIndex = int i + 1\<rparr>],
             nextPlannedActivityId := nextPlannedActivityId s + 1\<rparr>))"

text \<open>The outer loop: the created day plans, in the order of their day numbers.\<close>

fun createPlannedActivities :: "(dbop \<Rightarrow> bool) \<Rightarrow> plan \<Rightarrow> dayPlan list \<Rightarrow> store \<Rightarrow> fault + store" where
  "createPlannedActivities faulty p [] s = Inr s"
| "createPlannedActivities faulty p (dp # dps) s =
     (case createPlannedForDay faulty (dayNumber dp) (dp_id dp) 0 (dayItems p (dayNumber dp)) s of
        Inl e \<Rightarrow> Inl e
      | Inr s' \<Rightarrow> createPlannedActivities faulty p dps s')"

text \<open>\<open>tx.trip.findUnique\<close> with its nested includes.\<close>

definition tripView :: "int \<Rightarrow> store \<Rightarrow> trip_view option" where
  "tripView tripId s =
     map_option
       (\<lambda>t. (t, map (\<lambda>dp. (dp, sort_key orderIndex
                               (filter (\<lambda>pa. dayPlanId pa = dp_id dp) (plannedActivityTable s))))
                  (sort_key dayNumber (filter (\<lambda>dp. dp_tripId dp = tripId) (dayPlanTable s)))))
       (findUniqueTrip tripId s)"

text \<open>
  \<open>prisma.$transaction\<close>: the body runs on the store; when it throws, or the commit is
  rejected, the store is the one before the transaction.
\<close>

definition transaction :: "(dbop \<Rightarrow> bool) \<Rightarrow> (store \<Rightarrow> fault + ('a \<times> store)) \<Rightarrow> store \<Rightarrow> (fault + 'a) \<times> store" where
  "transaction faulty body s =
     (case body s of
        Inl e \<Rightarrow> (Inl e, s)
      | Inr (v, s') \<Rightarrow> if faulty OpTxCommit then (Inl (DbFault OpTxCommit), s) else (Inr v, s'))"

text \<open>The body of the transaction of the regeneration.\<close>

definition deleteOldPlan :: "(dbop \<Rightarrow> bool) \<Rightarrow> int \<Rightarrow> store \<Rightarrow> fault + store" where
  "deleteOldPlan faulty tripId s =
     (if faulty OpTxFindDayPlans then Inl (DbFault OpTxFindDayPlans)
      else
        let dayPlanIds = map dp_id (filter (\<lambda>dp. dp_tripId dp = tripId) (dayPlanTable s))
        in if length dayPlanIds > 0 then
             (if faulty OpTxDeletePlannedActivities then Inl (DbFault OpTxDeletePlannedActivities)
              else if faulty OpTxDeleteDayPlans then Inl (DbFault OpTxDeleteDayPlans)
              else Inr (s\<lparr>plannedActivityTable :=
                             filter (\<lambda>pa. dayPlanId pa \<notin> set dayPlanIds) (plannedActivityTable s),
                          dayPlanTable := filter (\<lambda>dp. dp_tripId dp \<noteq> tripId) (dayPlanTable s)\<rparr>))
           else Inr s)"

definition updateInterests :: "(dbop \<Rightarrow> bool) \<Rightarrow> int \<Rightarrow> string \<Rightarrow> store \<Rightarrow> fault + store" where
  "updateInterests faulty tripId eff s =
     (if faulty OpTxUpdateTrip then Inl (DbFault OpTxUpdateTrip)
      else if findUniqueTrip tripId s = None then Inl RecordNotFound
      else Inr (s\<lparr>tripTable := map (\<lambda>t. if t_id t = tripId then t\<lparr>t_interests := eff\<rparr> else t)
                                  (tripTable s)\<rparr>))"

definition replacePlan :: "(dbop \<Rightarrow> bool) \<Rightarrow> int \<Rightarrow> trip \<Rightarrow> string \<Rightarrow> plan \<Rightarrow> store \<Rightarrow> fault + (trip_view option \<times> store)" where
  "replacePlan faulty tripId base eff p s =
     (case deleteOldPlan faulty tripId s of
        Inl e \<Rightarrow> Inl e
      | Inr s1 \<Rightarrow>
          (case (if eff \<noteq> t_interests base then updateInterests faulty tripId eff s1 else Inr s1) of
             Inl e \<Rightarrow> Inl e
           | Inr s2 \<Rightarrow>
               (case createDayPlans faulty tripId [1..t_daysCount base] s2 of
                  Inl e \<Rightarrow> Inl e
                | Inr (newDayPlans, s3) \<Rightarrow>
                    (case createPlannedActivities faulty p newDayPlans s3 of
                       Inl e \<Rightarrow> Inl e
                     | Inr s4 \<Rightarrow>
                         if faulty OpTxFindTrip then Inl (DbFault OpTxFindTrip)
                         else Inr (tripView tripId s4, s4)))))"

section \<open>The regeneration handler\<close>

text \<open>
  The handler of \<open>POST /:id/regenerate\<close> suspends at each awaited call on the store, and
  other requests run in between. A request is therefore a small machine: its control
  point says which awaited call comes next and holds the local variables that are live
  there; one step performs that call and the synchronous code up to the next one.
\<close>

datatype pc =
    AtFindBase int
  | AtAcquire int trip
  | AtFetch int trip string
  | AtPersist int trip string plan
  | AtFinally int response
  | Finished response

text \<open>The code before the \<open>try\<close>: the identifier of the path is checked, nothing is awaited.\<close>

definition start :: "request \<Rightarrow> pc" where
  "start req =
     (case req_idParam req of
        NonInteger \<Rightarrow> Finished (Message 404 ''Trip not found'')
      | Integer tripId \<Rightarrow>
          if tripId \<le> 0 then Finished (Message 404 ''Trip not found'')
          else AtFindBase tripId)"

fun step :: "planner \<Rightarrow> (dbop \<Rightarrow> bool) \<Rightarrow> request \<Rightarrow> pc \<Rightarrow> store \<Rightarrow> pc \<times> store" where
  "step gen faulty req (AtFindBase tripId) s =
     (if faulty OpFindBase then (AtFinally tripId serverError, s)
      else case findUniqueTrip tripId s of
             None \<Rightarrow> (AtFinally tripId (Message 404 ''Trip not found''), s)
           | Some base \<Rightarrow>
               if t_userId base \<noteq> req_userId req then (AtFinally tripId (Message 403 ''Forbidden''), s)
               else (AtAcquire tripId base, s))"
| "step gen faulty req (AtAcquire tripId base) s =
     (if faulty OpAcquireLock then (AtFinally tripId serverError, s)
      else
        let (count, s') = acquireLock req tripId s
        in if count = 0 then (AtFinally tripId (Message 409 ''Regeneration already in progress''), s')
           else if overrideInvalid (req_interests req) then
             (AtFinally tripId (Message 400 ''interests must be a non-empty string''), s')
           else (AtFetch tripId base (effectiveInterests req base), s'))"
| "step gen faulty req (AtFetch tripId base eff) s =
     (if faulty OpFindActivities then (AtFinally tripId serverError, s)
      else
        (case generatedPlan gen (findManyActivities (t_destination base) s) base eff of
           Inl e \<Rightarrow> (AtFinally tripId serverError, s)
         | Inr p \<Rightarrow> (AtPersist tripId base eff p, s)))"
| "step gen faulty req (AtPersist tripId base eff p) s =
     (case transaction faulty (replacePlan faulty tripId base eff p) s of
        (Inl e, s') \<Rightarrow> (AtFinally tripId serverError, s')
      | (Inr savedTrip, s') \<Rightarrow> (AtFinally tripId (TripJson 200 savedTrip (warning p)), s'))"
| "step gen faulty req (AtFinally tripId r) s =
     (Finished r, unlock faulty tripId (req_userId req) s)"
| "step gen faulty req (Finished r) s = (Finished r, s)"

text \<open>The number of awaited calls a request still has before it.\<close>

fun remaining :: "pc \<Rightarrow> nat" where
  "remaining (AtFindBase tripId) = 5"
| "remaining (AtAcquire tripId base) = 4"
| "remaining (AtFetch tripId base eff) = 3"
| "remaining (AtPersist tripId base eff p) = 2"
| "remaining (AtFinally tripId r) = 1"
| "remaining (Finished r) = 0"

lemma step_remaining:
  "remaining c \<noteq> 0 \<Longrightarrow> remaining (fst (step gen faulty req c s)) < remaining c"
  by (cases c)
     (auto simp: Let_def split: if_splits option.splits prod.splits sum.splits body_value.splits)

lemma step_decreases:
  assumes "(c', s') = step gen faulty req c s" and "remaining c \<noteq> 0"
  shows "((gen, faulty, req, c', s'), (gen, faulty, req, c, s))
           \<in> measure (\<lambda>(gen, faulty, req, c, s). remaining c)"
proof -
  from assms(1) [symmetric] have "fst (step gen faulty req c s) = c'"
    by simp
  with step_remaining [OF assms(2), of gen faulty req s] show ?thesis
    by simp
qed

text \<open>A request running alone: its steps, one after the other, to its response.\<close>

function drive :: "planner \<Rightarrow> (dbop \<Rightarrow> bool) \<Rightarrow> request \<Rightarrow> pc \<Rightarrow> store \<Rightarrow> response \<times> store" where
  "drive gen faulty req c s =
     (case c of
        Finished r \<Rightarrow> (r, s)
      | _ \<Rightarrow> (case step gen faulty req c s of (c', s') \<Rightarrow> drive gen faulty req c' s'))"
  by pat_completeness auto
termination
  apply (relation "measure (\<lambda>(gen, faulty, req, c, s). remaining c)")
       apply simp
      apply (erule step_decreases, simp)+
  done

definition regenerate :: "planner \<Rightarrow> (dbop \<Rightarrow> bool) \<Rightarrow> request \<Rightarrow> store \<Rightarrow> response \<times> store" where
  "regenerate gen faulty req s = drive gen faulty req (start req) s"


lemma start_cases:
  "start req = Finished (Message 404 ''Trip not found'') \<or>
   (\<exists>tripId. 0 < tripId \<and> req_idParam req = Integer tripId \<and> start req = AtFindBase tripId)"
  by (cases "req_idParam req") (simp_all add: start_def)

lemma start_valid:
  "req_idParam req = Integer tripId \<Longrightarrow> 0 < tripId \<Longrightarrow> start req = AtFindBase tripId"
  by (simp add: start_def)

section \<open>A request running alone, control point by control point\<close>

declare drive.simps [simp del]

lemma drive_Finished:
  "drive gen faulty req (Finished r) s = (r, s)"
  by (simp add: drive.simps)

lemma drive_AtFinally:
  "drive gen faulty req (AtFinally tripId r) s = (r, unlock faulty tripId (req_userId req) s)"
  by (simp add: drive.simps [of _ _ _ "AtFinally tripId r"] drive_Finished)

lemma drive_AtPersist:
  "drive gen faulty req (AtPersist tripId base eff p) s =
     (case transaction faulty (replacePlan faulty tripId base eff p) s of
        (Inl e, s') \<Rightarrow> (serverError, unlock faulty tripId (req_userId req) s')
      | (Inr savedTrip, s') \<Rightarrow>
          (TripJson 200 savedTrip (warning p), unlock faulty tripId (req_userId req) s'))"
  by (simp add: drive.simps [of _ _ _ "AtPersist tripId base eff p"] drive_AtFinally
           split: prod.splits sum.splits)

lemma drive_AtFetch:
  "drive gen faulty req (AtFetch tripId base eff) s =
     (if faulty OpFindActivities then (serverError, unlock faulty tripId (req_userId req) s)
      else
        (case generatedPlan gen (findManyActivities (t_destination base) s) base eff of
           Inl e \<Rightarrow> (serverError, unlock faulty tripId (req_userId req) s)
         | Inr p \<Rightarrow> drive gen faulty req (AtPersist tripId base eff p) s))"
  by (simp add: drive.simps [of _ _ _ "AtFetch tripId base eff"] drive_AtFinally
           split: sum.splits)

lemma drive_AtAcquire:
  "drive gen faulty req (AtAcquire tripId base) s =
     (if faulty OpAcquireLock then (serverError, unlock faulty tripId (req_userId req) s)
      else if fst (acquireLock req tripId s) = 0 then
        (Message 409 ''Regeneration already in progress'',
         unlock faulty tripId (req_userId req) (snd (acquireLock req tripId s)))
      else if overrideInvalid (req_interests req) then
        (Message 400 ''interests must be a non-empty string'',
         unlock faulty tripId (req_userId req) (snd (acquireLock req tripId s)))
      else
        drive gen faulty req (AtFetch tripId base (effectiveInterests req base))
          (snd (acquireLock req tripId s)))"
  by (simp add: drive.simps [of _ _ _ "AtAcquire tripId base"] drive_AtFinally Let_def
           split: prod.splits)

lemma drive_AtFindBase:
  "drive gen faulty req (AtFindBase tripId) s =
     (if faulty OpFindBase then (serverError, unlock faulty tripId (req_userId req) s)
      else
        (case findUniqueTrip tripId s of
           None \<Rightarrow> (Message 404 ''Trip not found'', unlock faulty tripId (req_userId req) s)
         | Some base \<Rightarrow>
             if t_userId base \<noteq> req_userId req then
               (Message 403 ''Forbidden'', unlock faulty tripId (req_userId req) s)
             else drive gen faulty req (AtAcquire tripId base) s))"
  by (simp add: drive.simps [of _ _ _ "AtFindBase tripId"] drive_AtFinally
           split: option.splits)


section \<open>What each operation leaves alone\<close>

text \<open>The identifier and the owner of every trip row, in table order.\<close>

definition owners :: "store \<Rightarrow> (int \<times> int) list" where
  "owners s = map (\<lambda>t. (t_id t, t_userId t)) (tripTable s)"

lemma owners_acquireLock:
  "owners (snd (acquireLock req tripId s)) = owners s"
  by (simp add: owners_def acquireLock_def updateManyTrips_def)

lemma owners_unlock:
  "owners (unlock faulty tripId userId s) = owners s"
  by (simp add: owners_def unlock_def updateManyTrips_def)

lemma plan_rows_acquireLock:
  "dayPlanTable (snd (acquireLock req tripId s)) = dayPlanTable s \<and>
   plannedActivityTable (snd (acquireLock req tripId s)) = plannedActivityTable s \<and>
   activityTable (snd (acquireLock req tripId s)) = activityTable s"
  by (simp add: acquireLock_def updateManyTrips_def)

lemma plan_rows_unlock:
  "dayPlanTable (unlock faulty tripId userId s) = dayPlanTable s \<and>
   plannedActivityTable (unlock faulty tripId userId s) = plannedActivityTable s \<and>
   activityTable (unlock faulty tripId userId s) = activityTable s"
  by (simp add: unlock_def updateManyTrips_def)

lemma unlock_clears:
  assumes "\<not> faulty OpUnlock" and "t \<in> set (tripTable (unlock faulty tripId userId s))"
    and "t_id t = tripId" and "t_userId t = userId"
  shows "regenLockUntil t = None"
proof -
  define f :: "trip \<Rightarrow> trip" where
    "f = (\<lambda>x. if t_id x = tripId \<and> t_userId x = userId then x\<lparr>regenLockUntil := None\<rparr> else x)"
  from assms(1) have "tripTable (unlock faulty tripId userId s) = map f (tripTable s)"
    by (simp add: unlock_def updateManyTrips_def f_def)
  with assms(2) have "t \<in> f ` set (tripTable s)"
    by simp
  then obtain x where x: "t = f x"
    by blast
  show ?thesis
  proof (cases "t_id x = tripId \<and> t_userId x = userId")
    case True
    with x show ?thesis by (simp add: f_def)
  next
    case False
    with x have "t = x" by (simp add: f_def)
    with False assms(3,4) show ?thesis by simp
  qed
qed

lemma owners_createDayPlans:
  "createDayPlans faulty tripId ds s = Inr (dps, s') \<Longrightarrow> tripTable s' = tripTable s"
  by (induction ds arbitrary: s dps) (auto simp: Let_def split: if_splits sum.splits)

lemma owners_createPlannedForDay:
  "createPlannedForDay faulty d dpId i items s = Inr s' \<Longrightarrow> tripTable s' = tripTable s"
  by (induction items arbitrary: s i) (auto split: if_splits)

lemma owners_createPlannedActivities:
  "createPlannedActivities faulty p dps s = Inr s' \<Longrightarrow> tripTable s' = tripTable s"
  by (induction dps arbitrary: s) (auto split: sum.splits dest: owners_createPlannedForDay)

lemma owners_deleteOldPlan:
  "deleteOldPlan faulty tripId s = Inr s' \<Longrightarrow> tripTable s' = tripTable s"
  by (auto simp: deleteOldPlan_def Let_def split: if_splits)

lemma owners_updateInterests:
  "updateInterests faulty tripId eff s = Inr s' \<Longrightarrow> owners s' = owners s"
  by (auto simp: updateInterests_def owners_def split: if_splits)

lemma owners_replacePlan:
  "replacePlan faulty tripId base eff p s = Inr (v, s') \<Longrightarrow> owners s' = owners s"
  by (auto simp: replacePlan_def owners_def [of s'] owners_def [of s]
           split: sum.splits if_splits prod.splits
           dest!: owners_deleteOldPlan owners_createDayPlans owners_createPlannedActivities
                  owners_updateInterests [unfolded owners_def])

lemma owners_transaction:
  "owners (snd (transaction faulty (replacePlan faulty tripId base eff p) s)) = owners s"
  by (auto simp: transaction_def split: sum.splits dest: owners_replacePlan)


lemma owners_transaction_result:
  "transaction faulty (replacePlan faulty tripId base eff p) s = (r, s') \<Longrightarrow> owners s' = owners s"
  using owners_transaction [of faulty tripId base eff p s] by simp

lemma transaction_rollback:
  "transaction faulty body s = (Inl e, s') \<Longrightarrow> s' = s"
  by (auto simp: transaction_def split: sum.splits prod.splits if_splits)

section \<open>The lock after a request\<close>

text \<open>Every row of the caller's trip has its lock field null.\<close>

definition lockCleared :: "int \<Rightarrow> int \<Rightarrow> store \<Rightarrow> bool" where
  "lockCleared tripId userId s \<longleftrightarrow>
     list_all (\<lambda>t. t_id t = tripId \<and> t_userId t = userId \<longrightarrow> regenLockUntil t = None) (tripTable s)"

lemma lockCleared_unlock:
  "\<not> faulty OpUnlock \<Longrightarrow> lockCleared tripId userId (unlock faulty tripId userId s)"
  by (auto simp: lockCleared_def list_all_iff dest: unlock_clears)

lemma cleared_AtPersist:
  "\<not> faulty OpUnlock \<Longrightarrow>
   lockCleared tripId (req_userId req) (snd (drive gen faulty req (AtPersist tripId base eff p) s))"
  by (simp add: drive_AtPersist lockCleared_unlock split: prod.splits sum.splits)

lemma cleared_AtFetch:
  "\<not> faulty OpUnlock \<Longrightarrow>
   lockCleared tripId (req_userId req) (snd (drive gen faulty req (AtFetch tripId base eff) s))"
  by (simp add: drive_AtFetch lockCleared_unlock cleared_AtPersist split: sum.splits)

lemma cleared_AtAcquire:
  "\<not> faulty OpUnlock \<Longrightarrow>
   lockCleared tripId (req_userId req) (snd (drive gen faulty req (AtAcquire tripId base) s))"
  by (simp add: drive_AtAcquire lockCleared_unlock cleared_AtFetch)

lemma cleared_AtFindBase:
  "\<not> faulty OpUnlock \<Longrightarrow>
   lockCleared tripId (req_userId req) (snd (drive gen faulty req (AtFindBase tripId) s))"
  by (simp add: drive_AtFindBase lockCleared_unlock cleared_AtAcquire split: option.splits)

lemma owners_AtPersist:
  "owners (snd (drive gen faulty req (AtPersist tripId base eff p) s)) = owners s"
  by (auto simp: drive_AtPersist owners_unlock split: prod.splits sum.splits
           dest: owners_transaction_result)

lemma owners_AtFetch:
  "owners (snd (drive gen faulty req (AtFetch tripId base eff) s)) = owners s"
  by (simp add: drive_AtFetch owners_unlock owners_AtPersist split: sum.splits)

lemma owners_AtAcquire:
  "owners (snd (drive gen faulty req (AtAcquire tripId base) s)) = owners s"
  by (simp add: drive_AtAcquire owners_unlock owners_AtFetch owners_acquireLock)

lemma owners_AtFindBase:
  "owners (snd (drive gen faulty req (AtFindBase tripId) s)) = owners s"
  by (simp add: drive_AtFindBase owners_unlock owners_AtAcquire split: option.splits)

section \<open>The persisted plan after a request that did not succeed\<close>

definition samePlanRows :: "store \<Rightarrow> store \<Rightarrow> bool" where
  "samePlanRows s s' \<longleftrightarrow>
     dayPlanTable s' = dayPlanTable s \<and> plannedActivityTable s' = plannedActivityTable s"

lemma samePlanRows_unlock:
  "samePlanRows s (unlock faulty tripId userId s') = samePlanRows s s'"
  by (simp add: samePlanRows_def plan_rows_unlock)

lemma samePlanRows_acquireLock:
  "samePlanRows (snd (acquireLock req tripId s)) s' = samePlanRows s s'"
  by (simp add: samePlanRows_def plan_rows_acquireLock)

lemma samePlanRows_after_acquireLock:
  "samePlanRows s (snd (acquireLock req tripId s')) = samePlanRows s s'"
  by (simp add: samePlanRows_def plan_rows_acquireLock)

lemma samePlanRows_refl:
  "samePlanRows s s"
  by (simp add: samePlanRows_def)

lemma rows_AtPersist:
  "status (fst (drive gen faulty req (AtPersist tripId base eff p) s)) \<noteq> 200 \<Longrightarrow>
   samePlanRows s (snd (drive gen faulty req (AtPersist tripId base eff p) s))"
  by (auto simp: drive_AtPersist samePlanRows_unlock samePlanRows_refl
           split: prod.splits sum.splits dest: transaction_rollback)

lemma rows_AtFetch:
  "status (fst (drive gen faulty req (AtFetch tripId base eff) s)) \<noteq> 200 \<Longrightarrow>
   samePlanRows s (snd (drive gen faulty req (AtFetch tripId base eff) s))"
  by (auto simp: drive_AtFetch samePlanRows_unlock samePlanRows_refl rows_AtPersist
           split: sum.splits if_splits)

lemma rows_AtAcquire:
  "status (fst (drive gen faulty req (AtAcquire tripId base) s)) \<noteq> 200 \<Longrightarrow>
   samePlanRows s (snd (drive gen faulty req (AtAcquire tripId base) s))"
  using rows_AtFetch [of gen faulty req tripId base _ "snd (acquireLock req tripId s)"]
  by (auto simp: drive_AtAcquire samePlanRows_unlock samePlanRows_refl samePlanRows_acquireLock
                 samePlanRows_after_acquireLock
           split: if_splits)

lemma rows_AtFindBase:
  "status (fst (drive gen faulty req (AtFindBase tripId) s)) \<noteq> 200 \<Longrightarrow>
   samePlanRows s (snd (drive gen faulty req (AtFindBase tripId) s))"
  by (auto simp: drive_AtFindBase samePlanRows_unlock samePlanRows_refl rows_AtAcquire
           split: option.splits if_splits)


section \<open>A store, a request and a planner to evaluate the handlers on\<close>

definition louvre :: activity where
  "louvre = \<lparr>a_id = 1, a_destination = ''Paris'', a_name = ''Louvre Museum'', a_type = ''culture'',
              durationHours = 3, priceLevel = 3\<rparr>"

definition eiffel :: activity where
  "eiffel = \<lparr>a_id = 2, a_destination = ''Paris'', a_name = ''Eiffel Tower'', a_type = ''culture'',
              durationHours = 2, priceLevel = 3\<rparr>"

definition montmartre :: activity where
  "montmartre = \<lparr>a_id = 3, a_destination = ''Paris'', a_name = ''Montmartre Walk'', a_type = ''nature'',
                  durationHours = 2, priceLevel = 1\<rparr>"

definition parisTrip :: trip where
  "parisTrip = \<lparr>t_id = 1, t_userId = 7, t_destination = ''Paris'', t_daysCount = 2, t_budget = None,
                 t_interests = ''culture'', regenLockUntil = None\<rparr>"

definition parisStore :: store where
  "parisStore =
     \<lparr>tripTable = [parisTrip],
      dayPlanTable = [\<lparr>dp_id = 1, dp_tripId = 1, dayNumber = 1\<rparr>, \<lparr>dp_id = 2, dp_tripId = 1, dayNumber = 2\<rparr>],
      plannedActivityTable = [\<lparr>pa_id = 1, dayPlanId = 1, activityId = 1, orderIndex = 1\<rparr>],
      activityTable = [louvre, eiffel, montmartre],
      nextTripId = 2, nextDayPlanId = 3, nextPlannedActivityId = 2\<rparr>"

definition parisRequest :: request where
  "parisRequest = \<lparr>req_userId = 7, req_idParam = Integer 1, req_interests = Undefined,
                    req_now = 1000, req_dateNow = 1000\<rparr>"

text \<open>A planner that puts the first two activities on day 1 and the rest on day 2.\<close>

definition twoThenRest :: planner where
  "twoThenRest acts n i = Inr \<lparr>days = [take 2 acts, drop 2 acts], warning = None\<rparr>"

definition noFault :: "dbop \<Rightarrow> bool" where
  "noFault op = False"

lemmas example_defs =
  louvre_def eiffel_def montmartre_def parisTrip_def parisStore_def parisRequest_def
  twoThenRest_def noFault_def

lemmas handler_defs =
  regenerate_def start_def drive_AtFindBase drive_AtAcquire drive_AtFetch drive_AtPersist
  findUniqueTrip_def acquireLock_def updateManyTrips_def lockFree_def lockTtlMs_def unlock_def
  findManyActivities_def transaction_def replacePlan_def deleteOldPlan_def updateInterests_def
  dayItems_def emptyPlan_def overrideInvalid_def effectiveInterests_def generatedPlan_def tripView_def serverError_def samePlanRows_def lockCleared_def
  trim_def whiteSpace_def stripLeading.simps Let_def upto_rec1


text \<open>The creation of the day plan of day 2 is rejected: a failure in the middle of the replacement.\<close>

definition secondDayFails :: "dbop \<Rightarrow> bool" where
  "secondDayFails op \<longleftrightarrow> op = OpTxCreateDayPlan 2"

section \<open>Claims about the regeneration handler\<close>

text \<open>
  C3. The replacement of the persisted plan is all or nothing. When the body of the
  transaction throws at any of its steps, the handler answers 500 and the stored day
  plans and planned activities are the ones before the request; and whatever the request,
  the planner and the rejected calls, a regeneration that does not answer 200 leaves the
  day-plan and planned-activity tables exactly as they were.
\<close>

theorem regenerate_replace_all_or_nothing:
  "(replacePlan faulty tripId base eff p s = Inl e \<longrightarrow>
      status (fst (drive gen faulty req (AtPersist tripId base eff p) s)) = 500 \<and>
      samePlanRows s (snd (drive gen faulty req (AtPersist tripId base eff p) s)))
   \<and> (status (fst (regenerate gen faulty req s)) \<noteq> 200 \<longrightarrow>
        samePlanRows s (snd (regenerate gen faulty req s)))"
proof (intro conjI impI)
  assume thrown: "replacePlan faulty tripId base eff p s = Inl e"
  then have "transaction faulty (replacePlan faulty tripId base eff p) s = (Inl e, s)"
    by (simp add: transaction_def)
  then show "status (fst (drive gen faulty req (AtPersist tripId base eff p) s)) = 500"
    and "samePlanRows s (snd (drive gen faulty req (AtPersist tripId base eff p) s))"
    by (simp_all add: drive_AtPersist serverError_def samePlanRows_unlock samePlanRows_refl)
next
  assume refused: "status (fst (regenerate gen faulty req s)) \<noteq> 200"
  from start_cases [of req] show "samePlanRows s (snd (regenerate gen faulty req s))"
  proof
    assume "start req = Finished (Message 404 ''Trip not found'')"
    then show ?thesis
      by (simp add: regenerate_def drive_Finished samePlanRows_refl)
  next
    assume "\<exists>tripId. 0 < tripId \<and> req_idParam req = Integer tripId \<and> start req = AtFindBase tripId"
    then obtain tripId where "start req = AtFindBase tripId"
      by blast
    with refused show ?thesis
      by (simp add: regenerate_def rows_AtFindBase)
  qed
qed

theorem regenerate_replace_all_or_nothing_witness:
  "replacePlan secondDayFails 1 parisTrip ''culture''
       \<lparr>days = [[louvre, eiffel], [montmartre]], warning = None\<rparr> parisStore
     = Inl (DbFault (OpTxCreateDayPlan 2))
   \<and> status (fst (regenerate twoThenRest secondDayFails parisRequest parisStore)) \<noteq> 200
   \<and> samePlanRows parisStore (snd (regenerate twoThenRest secondDayFails parisRequest parisStore))
   \<and> samePlanRows parisStore
        (snd (drive twoThenRest secondDayFails parisRequest
                (AtPersist 1 parisTrip ''culture''
                   \<lparr>days = [[louvre, eiffel], [montmartre]], warning = None\<rparr>) parisStore))"
proof -
  have thrown: "replacePlan secondDayFails 1 parisTrip ''culture''
       \<lparr>days = [[louvre, eiffel], [montmartre]], warning = None\<rparr> parisStore
     = Inl (DbFault (OpTxCreateDayPlan 2))"
    by (simp add: example_defs handler_defs secondDayFails_def)
  have refused: "status (fst (regenerate twoThenRest secondDayFails parisRequest parisStore)) \<noteq> 200"
    by (simp add: example_defs handler_defs secondDayFails_def)
  from thrown refused show ?thesis
    using regenerate_replace_all_or_nothing
            [of secondDayFails 1 parisTrip "''culture''"
                "\<lparr>days = [[louvre, eiffel], [montmartre]], warning = None\<rparr>" parisStore
                "DbFault (OpTxCreateDayPlan 2)" twoThenRest parisRequest]
    by blast
qed

lemma createDayPlans_unlock_fault:
  "createDayPlans (faulty(OpUnlock := b)) tripId ds s = createDayPlans faulty tripId ds s"
  by (induction ds arbitrary: s) (simp_all add: Let_def cong: sum.case_cong prod.case_cong)

lemma createPlannedForDay_unlock_fault:
  "createPlannedForDay (faulty(OpUnlock := b)) d dpId i items s = createPlannedForDay faulty d dpId i items s"
  by (induction items arbitrary: s i) simp_all

lemma createPlannedActivities_unlock_fault:
  "createPlannedActivities (faulty(OpUnlock := b)) p dps s = createPlannedActivities faulty p dps s"
  by (induction dps arbitrary: s)
     (simp_all add: createPlannedForDay_unlock_fault cong: sum.case_cong)

lemma replacePlan_unlock_fault:
  "replacePlan (faulty(OpUnlock := b)) tripId base eff p s = replacePlan faulty tripId base eff p s"
  by (simp add: replacePlan_def deleteOldPlan_def updateInterests_def createDayPlans_unlock_fault
        createPlannedActivities_unlock_fault cong: sum.case_cong prod.case_cong if_cong)

lemma transaction_unlock_fault:
  "transaction (faulty(OpUnlock := b)) (replacePlan (faulty(OpUnlock := b)) tripId base eff p) s
     = transaction faulty (replacePlan faulty tripId base eff p) s"
  by (simp add: transaction_def replacePlan_unlock_fault cong: sum.case_cong prod.case_cong)

lemma response_AtPersist:
  "fst (drive gen (faulty(OpUnlock := b)) req (AtPersist tripId base eff p) s)
     = fst (drive gen faulty req (AtPersist tripId base eff p) s)"
  by (simp add: drive_AtPersist transaction_unlock_fault split: prod.splits sum.splits)

lemma response_AtFetch:
  "fst (drive gen (faulty(OpUnlock := b)) req (AtFetch tripId base eff) s)
     = fst (drive gen faulty req (AtFetch tripId base eff) s)"
  by (simp add: drive_AtFetch response_AtPersist split: sum.splits)

lemma response_AtAcquire:
  "fst (drive gen (faulty(OpUnlock := b)) req (AtAcquire tripId base) s)
     = fst (drive gen faulty req (AtAcquire tripId base) s)"
  by (simp add: drive_AtAcquire response_AtFetch)

lemma response_AtFindBase:
  "fst (drive gen (faulty(OpUnlock := b)) req (AtFindBase tripId) s)
     = fst (drive gen faulty req (AtFindBase tripId) s)"
  by (simp add: drive_AtFindBase response_AtAcquire split: option.splits)

lemma findUniqueTrip_owner:
  "findUniqueTrip tripId s = Some base \<Longrightarrow> (tripId, t_userId base) \<in> set (owners s)"
  by (force simp: findUniqueTrip_def owners_def find_Some_iff)

text \<open>
  C2. For an existing trip owned by the caller, whatever the planner does and whichever
  calls on the store are rejected, the request ends with the lock field of that trip
  cleared, as long as the unlocking call itself is not rejected; and a rejection of the
  unlocking call changes nothing in the response the caller gets.
\<close>

theorem regenerate_always_unlocks:
  assumes "req_idParam req = Integer tripId" and "0 < tripId"
    and "findUniqueTrip tripId s = Some base" and "t_userId base = req_userId req"
  shows "(\<not> faulty OpUnlock \<longrightarrow>
            (tripId, req_userId req) \<in> set (owners (snd (regenerate gen faulty req s))) \<and>
            lockCleared tripId (req_userId req) (snd (regenerate gen faulty req s)))
       \<and> fst (regenerate gen (faulty(OpUnlock := True)) req s) = fst (regenerate gen faulty req s)"
proof -
  from assms(1,2) have st: "start req = AtFindBase tripId"
    by (rule start_valid)
  from assms(3,4) have "(tripId, req_userId req) \<in> set (owners s)"
    using findUniqueTrip_owner [of tripId s base] by simp
  then have "(tripId, req_userId req) \<in> set (owners (snd (regenerate gen faulty req s)))"
    by (simp add: regenerate_def st owners_AtFindBase)
  moreover have "\<not> faulty OpUnlock \<Longrightarrow>
      lockCleared tripId (req_userId req) (snd (regenerate gen faulty req s))"
    by (simp add: regenerate_def st cleared_AtFindBase)
  moreover have "fst (regenerate gen (faulty(OpUnlock := True)) req s) = fst (regenerate gen faulty req s)"
    by (simp add: regenerate_def st response_AtFindBase)
  ultimately show ?thesis
    by blast
qed

text \<open>The transaction is rejected at its commit, and so is the unlocking call.\<close>

definition commitFails :: "dbop \<Rightarrow> bool" where
  "commitFails op \<longleftrightarrow> op = OpTxCommit"

theorem regenerate_always_unlocks_witness:
  "status (fst (regenerate twoThenRest commitFails parisRequest parisStore)) = 500
   \<and> (1, 7) \<in> set (owners (snd (regenerate twoThenRest commitFails parisRequest parisStore)))
   \<and> lockCleared 1 7 (snd (regenerate twoThenRest commitFails parisRequest parisStore))
   \<and> fst (regenerate twoThenRest (commitFails(OpUnlock := True)) parisRequest parisStore)
       = fst (regenerate twoThenRest commitFails parisRequest parisStore)"
proof -
  have "status (fst (regenerate twoThenRest commitFails parisRequest parisStore)) = 500"
    by (simp add: example_defs handler_defs commitFails_def)
  moreover have "req_idParam parisRequest = Integer 1" and "(0::int) < 1"
    and "findUniqueTrip 1 parisStore = Some parisTrip"
    and "t_userId parisTrip = req_userId parisRequest" and "req_userId parisRequest = 7"
    and "\<not> commitFails OpUnlock"
    by (simp_all add: example_defs findUniqueTrip_def commitFails_def)
  ultimately show ?thesis
    using regenerate_always_unlocks [of parisRequest 1 parisStore parisTrip commitFails twoThenRest]
    by simp
qed

section \<open>Requests running concurrently\<close>

text \<open>
  Several requests share the store. A schedule is the order in which they take their
  steps: its element \<open>i\<close> lets request \<open>i\<close> perform its next awaited call.
\<close>

type_synonym process = "request \<times> pc"

definition schedule1 :: "planner \<Rightarrow> (dbop \<Rightarrow> bool) \<Rightarrow> nat \<Rightarrow> process list \<times> store \<Rightarrow> process list \<times> store" where
  "schedule1 gen faulty i sys =
     (case sys of (ps, s) \<Rightarrow>
        if i < length ps then
          (case step gen faulty (fst (ps ! i)) (snd (ps ! i)) s of
             (c', s') \<Rightarrow> (ps[i := (fst (ps ! i), c')], s'))
        else (ps, s))"

definition runSchedule :: "planner \<Rightarrow> (dbop \<Rightarrow> bool) \<Rightarrow> nat list \<Rightarrow> process list \<times> store \<Rightarrow> process list \<times> store" where
  "runSchedule gen faulty sched sys = fold (schedule1 gen faulty) sched sys"

text \<open>
  A regeneration is in flight from the moment its request holds the lock until its
  transaction has ended.
\<close>

fun inFlight :: "pc \<Rightarrow> bool" where
  "inFlight (AtFetch tripId base eff) = True"
| "inFlight (AtPersist tripId base eff p) = True"
| "inFlight c = False"

definition inFlightCount :: "process list \<Rightarrow> nat" where
  "inFlightCount ps = length (filter (\<lambda>pr. inFlight (snd pr)) ps)"

lemma step_rejected:
  assumes "\<not> faulty OpFindBase" and "\<not> faulty OpAcquireLock"
    and "findUniqueTrip tripId s = Some base" and "t_userId base = req_userId req"
    and "fst (acquireLock req tripId s) = 0"
  shows "step gen faulty req (AtFindBase tripId) s = (AtAcquire tripId base, s)"
    and "step gen faulty req (AtAcquire tripId base) s =
           (AtFinally tripId (Message 409 ''Regeneration already in progress''), snd (acquireLock req tripId s))"
  using assms by (simp_all add: split_beta)

lemma acquireLock_count:
  "fst (acquireLock req tripId s) = 0 \<longleftrightarrow>
     list_all (\<lambda>t. \<not> lockFree tripId (req_userId req) (req_now req) t) (tripTable s)"
  by (simp add: acquireLock_def updateManyTrips_def list_all_iff filter_empty_conv)

lemma acquireLock_refused_same:
  "fst (acquireLock req tripId s) = 0 \<Longrightarrow> snd (acquireLock req tripId s) = s"
proof -
  assume "fst (acquireLock req tripId s) = 0"
  then have none: "\<forall>t \<in> set (tripTable s). \<not> lockFree tripId (req_userId req) (req_now req) t"
    by (simp add: acquireLock_count list_all_iff)
  then have "map (\<lambda>t. if lockFree tripId (req_userId req) (req_now req) t
                      then t\<lparr>regenLockUntil := Some (req_dateNow req + lockTtlMs)\<rparr> else t) (tripTable s)
             = tripTable s"
    by (simp add: map_idI)
  then show ?thesis
    by (simp add: acquireLock_def updateManyTrips_def)
qed

lemma acquireLock_held:
  assumes "list_all (\<lambda>t. t_id t = tripId \<longrightarrow>
              (case regenLockUntil t of None \<Rightarrow> False | Some u \<Rightarrow> req_now req \<le> u)) (tripTable s)"
  shows "fst (acquireLock req tripId s) = 0"
  using assms
  by (auto simp: acquireLock_count list_all_iff lockFree_def split: option.splits)

text \<open>The same trip while a first request holds its lock, and a second request for it.\<close>

definition heldTrip :: trip where
  "heldTrip = parisTrip\<lparr>regenLockUntil := Some 121000\<rparr>"

definition heldStore :: store where
  "heldStore = parisStore\<lparr>tripTable := [heldTrip]\<rparr>"

definition secondRequest :: request where
  "secondRequest = parisRequest\<lparr>req_now := 2000, req_dateNow := 2000\<rparr>"

definition thirdRequest :: request where
  "thirdRequest = parisRequest\<lparr>req_now := 3000, req_dateNow := 3000\<rparr>"

text \<open>
  C9. The cleanup that sets the lock field to null runs at every termination of a
  request with a well-formed trip identifier, whatever the store, the planner and the
  rejected calls (the unlocking call apart). In particular a request that finds the lock
  held runs it: while the regeneration of another request is in flight, the three steps
  of the competing request end with the 409 response, leave the other request where it
  was, and leave the lock field of the trip null.
\<close>

theorem rejected_request_clears_lock:
  assumes "i < length ps" and "j < length ps" and "i \<noteq> j"
    and "ps ! i = (req, start req)" and "req_idParam req = Integer tripId" and "0 < tripId"
    and "inFlight (snd (ps ! j))"
    and "findUniqueTrip tripId s = Some base" and "t_userId base = req_userId req"
    and "list_all (\<lambda>t. t_id t = tripId \<longrightarrow>
              (case regenLockUntil t of None \<Rightarrow> False | Some u \<Rightarrow> req_now req \<le> u)) (tripTable s)"
    and "\<not> faulty OpFindBase" and "\<not> faulty OpAcquireLock" and "\<not> faulty OpUnlock"
  shows "(\<forall>gen' faulty' s'. \<not> faulty' OpUnlock \<longrightarrow>
            lockCleared tripId (req_userId req) (snd (regenerate gen' faulty' req s')))
       \<and> fst (runSchedule gen faulty [i, i, i] (ps, s)) ! i
           = (req, Finished (Message 409 ''Regeneration already in progress''))
       \<and> fst (runSchedule gen faulty [i, i, i] (ps, s)) ! j = ps ! j
       \<and> (tripId, req_userId req) \<in> set (owners (snd (runSchedule gen faulty [i, i, i] (ps, s))))
       \<and> lockCleared tripId (req_userId req) (snd (runSchedule gen faulty [i, i, i] (ps, s)))"
proof -
  from assms(5,6) have st: "start req = AtFindBase tripId"
    by (rule start_valid)
  have always: "\<forall>gen' faulty' s'. \<not> faulty' OpUnlock \<longrightarrow>
            lockCleared tripId (req_userId req) (snd (regenerate gen' faulty' req s'))"
    by (simp add: regenerate_def st cleared_AtFindBase)
  from assms(10) have zero: "fst (acquireLock req tripId s) = 0"
    by (rule acquireLock_held)
  then have same: "snd (acquireLock req tripId s) = s"
    by (rule acquireLock_refused_same)
  let ?r = "Message 409 ''Regeneration already in progress''"
  have s1: "schedule1 gen faulty i (ps, s) = (ps[i := (req, AtAcquire tripId base)], s)"
    using assms(1,4,8,9,11) by (simp add: schedule1_def st)
  have s2: "schedule1 gen faulty i (ps[i := (req, AtAcquire tripId base)], s)
              = (ps[i := (req, AtFinally tripId ?r)], s)"
    using assms(1,12) zero same by (simp add: schedule1_def split_beta)
  have s3: "schedule1 gen faulty i (ps[i := (req, AtFinally tripId ?r)], s)
              = (ps[i := (req, Finished ?r)], unlock faulty tripId (req_userId req) s)"
    using assms(1) by (simp add: schedule1_def)
  have run: "runSchedule gen faulty [i, i, i] (ps, s)
               = (ps[i := (req, Finished ?r)], unlock faulty tripId (req_userId req) s)"
    by (simp add: runSchedule_def s1 s2 s3)
  from assms(8,9) have "(tripId, req_userId req) \<in> set (owners s)"
    using findUniqueTrip_owner [of tripId s base] by simp
  with assms(1,2,3,13) always show ?thesis
    by (simp add: run owners_unlock lockCleared_unlock)
qed

theorem rejected_request_clears_lock_witness:
  "inFlight (snd ([(parisRequest, AtFetch 1 parisTrip ''culture''), (secondRequest, start secondRequest)] ! 0))
   \<and> fst (runSchedule twoThenRest noFault [1, 1, 1]
            ([(parisRequest, AtFetch 1 parisTrip ''culture''), (secondRequest, start secondRequest)], heldStore)) ! 1
       = (secondRequest, Finished (Message 409 ''Regeneration already in progress''))
   \<and> fst (runSchedule twoThenRest noFault [1, 1, 1]
            ([(parisRequest, AtFetch 1 parisTrip ''culture''), (secondRequest, start secondRequest)], heldStore)) ! 0
       = (parisRequest, AtFetch 1 parisTrip ''culture'')
   \<and> (1, 7) \<in> set (owners (snd (runSchedule twoThenRest noFault [1, 1, 1]
            ([(parisRequest, AtFetch 1 parisTrip ''culture''), (secondRequest, start secondRequest)], heldStore))))
   \<and> lockCleared 1 7 (snd (runSchedule twoThenRest noFault [1, 1, 1]
            ([(parisRequest, AtFetch 1 parisTrip ''culture''), (secondRequest, start secondRequest)], heldStore)))
   \<and> lockCleared 1 7 (snd (regenerate twoThenRest noFault secondRequest heldStore))"
proof -
  let ?ps = "[(parisRequest, AtFetch 1 parisTrip ''culture''), (secondRequest, start secondRequest)]"
  have h: "(1::nat) < length ?ps" "(0::nat) < length ?ps" "(1::nat) \<noteq> 0"
    "?ps ! 1 = (secondRequest, start secondRequest)"
    "req_idParam secondRequest = Integer 1" "(0::int) < 1"
    "inFlight (snd (?ps ! 0))"
    "findUniqueTrip 1 heldStore = Some heldTrip" "t_userId heldTrip = req_userId secondRequest"
    "list_all (\<lambda>t. t_id t = 1 \<longrightarrow>
        (case regenLockUntil t of None \<Rightarrow> False | Some u \<Rightarrow> req_now secondRequest \<le> u))
       (tripTable heldStore)"
    "\<not> noFault OpFindBase" "\<not> noFault OpAcquireLock" "\<not> noFault OpUnlock"
    "req_userId secondRequest = 7"
    by (simp_all add: example_defs heldTrip_def heldStore_def secondRequest_def findUniqueTrip_def)
  have "?ps ! 0 = (parisRequest, AtFetch 1 parisTrip ''culture'')"
    by simp
  with h(7) h(13) h(14) show ?thesis
    using rejected_request_clears_lock [OF h(1-13), of twoThenRest]
    by simp
qed

text \<open>
  C1. Three requests for the same trip, all within the life of the lock. The first
  acquires the lock; the second is rejected with 409 and its cleanup clears the lock; the
  third then acquires the lock while the regeneration of the first is still in flight.
\<close>

theorem two_regenerations_in_flight:
  "inFlightCount (fst (runSchedule twoThenRest noFault [0, 0, 1, 1, 1, 2, 2]
      ([(parisRequest, start parisRequest), (secondRequest, start secondRequest),
        (thirdRequest, start thirdRequest)], parisStore))) = 2
   \<and> map (\<lambda>pr. inFlight (snd pr)) (fst (runSchedule twoThenRest noFault [0, 0, 1, 1, 1, 2, 2]
      ([(parisRequest, start parisRequest), (secondRequest, start secondRequest),
        (thirdRequest, start thirdRequest)], parisStore))) = [True, False, True]
   \<and> snd (fst (runSchedule twoThenRest noFault [0, 0, 1, 1, 1, 2, 2]
      ([(parisRequest, start parisRequest), (secondRequest, start secondRequest),
        (thirdRequest, start thirdRequest)], parisStore)) ! 1)
       = Finished (Message 409 ''Regeneration already in progress'')"
  by (simp add: runSchedule_def schedule1_def inFlightCount_def start_def example_defs
        secondRequest_def thirdRequest_def findUniqueTrip_def acquireLock_def updateManyTrips_def
        lockFree_def lockTtlMs_def unlock_def findManyActivities_def overrideInvalid_def)

section \<open>The acquisition of the lock\<close>

lemma not409_AtPersist:
  "status (fst (drive gen faulty req (AtPersist tripId base eff p) s)) \<noteq> 409"
  by (simp add: drive_AtPersist serverError_def split: prod.splits sum.splits)

lemma not409_AtFetch:
  "status (fst (drive gen faulty req (AtFetch tripId base eff) s)) \<noteq> 409"
  by (simp add: drive_AtFetch serverError_def not409_AtPersist split: sum.splits)

lemma not409_AtAcquire:
  "fst (acquireLock req tripId s) \<noteq> 0 \<Longrightarrow>
   status (fst (drive gen faulty req (AtAcquire tripId base) s)) \<noteq> 409"
  by (simp add: drive_AtAcquire serverError_def not409_AtFetch)

lemma not409_AtFindBase:
  "fst (acquireLock req tripId s) \<noteq> 0 \<Longrightarrow>
   status (fst (drive gen faulty req (AtFindBase tripId) s)) \<noteq> 409"
  by (simp add: drive_AtFindBase serverError_def not409_AtAcquire split: option.splits)

lemma same_id_same_row:
  assumes "distinct (map t_id (tripTable s))" and "t \<in> set (tripTable s)"
    and "x \<in> set (tripTable s)" and "t_id x = t_id t"
  shows "x = t"
  using assms by (meson distinct_map inj_onD)

lemma acquireLock_succeeds_iff:
  assumes "distinct (map t_id (tripTable s))" and "t \<in> set (tripTable s)"
    and "t_id t = tripId" and "t_userId t = req_userId req"
  shows "fst (acquireLock req tripId s) \<noteq> 0
           \<longleftrightarrow> lockFree tripId (req_userId req) (req_now req) t"
proof
  assume "fst (acquireLock req tripId s) \<noteq> 0"
  then obtain x where x: "x \<in> set (tripTable s)" "lockFree tripId (req_userId req) (req_now req) x"
    by (auto simp: acquireLock_count list_all_iff)
  then have "t_id x = t_id t"
    using assms(3) by (simp add: lockFree_def)
  with assms(1,2) x(1) have "x = t"
    by (rule same_id_same_row)
  with x(2) show "lockFree tripId (req_userId req) (req_now req) t"
    by simp
next
  assume "lockFree tripId (req_userId req) (req_now req) t"
  with assms(2) show "fst (acquireLock req tripId s) \<noteq> 0"
    by (auto simp: acquireLock_count list_all_iff)
qed

lemma acquireLock_table:
  assumes "distinct (map t_id (tripTable s))" and "t \<in> set (tripTable s)"
    and "t_id t = tripId" and "lockFree tripId (req_userId req) (req_now req) t"
  shows "tripTable (snd (acquireLock req tripId s))
           = map (\<lambda>x. if t_id x = tripId
                       then x\<lparr>regenLockUntil := Some (req_dateNow req + 2 * 60 * 1000)\<rparr> else x)
               (tripTable s)"
proof -
  have "lockFree tripId (req_userId req) (req_now req) x \<longleftrightarrow> t_id x = tripId"
    if "x \<in> set (tripTable s)" for x
  proof
    assume "lockFree tripId (req_userId req) (req_now req) x"
    then show "t_id x = tripId" by (simp add: lockFree_def)
  next
    assume "t_id x = tripId"
    with assms(1,2,3) that have "x = t"
      using same_id_same_row [of s t x] by simp
    with assms(4) show "lockFree tripId (req_userId req) (req_now req) x" by simp
  qed
  then show ?thesis
    by (simp add: acquireLock_def updateManyTrips_def lockTtlMs_def cong: map_cong)
qed

lemma lockFree_expiry:
  "t_id t = tripId \<Longrightarrow> t_userId t = userId \<Longrightarrow>
   lockFree tripId userId now t
     \<longleftrightarrow> regenLockUntil t = None \<or> (\<exists>u. regenLockUntil t = Some u \<and> u < now)"
  by (cases "regenLockUntil t") (simp_all add: lockFree_def)

section \<open>The creation handler\<close>

text \<open>
  The body of \<open>POST /\<close>. The budget is absent (undefined, null or the empty string),
  not a number, or a number.
\<close>

datatype budget_value = NoBudget | BudgetNaN | BudgetNum rat

record create_request =
  cr_userId :: "int option"
  cr_destination :: body_value
  cr_daysCount :: num_value
  cr_budget :: budget_value
  cr_interests :: body_value

text \<open>The checks of the body, in the order of the handler; each returns its 400 response.\<close>

fun checkDestination :: "body_value \<Rightarrow> response + string" where
  "checkDestination (Str dest) =
     (if dest = [] then Inl (Message 400 ''destination is required'') else Inr dest)"
| "checkDestination b = Inl (Message 400 ''destination is required'')"

fun checkDaysCount :: "num_value \<Rightarrow> response + int" where
  "checkDaysCount (Integer n) =
     (if n < 1 \<or> n > 30 then Inl (Message 400 ''daysCount must be integer 1-30'') else Inr n)"
| "checkDaysCount NonInteger = Inl (Message 400 ''daysCount must be integer 1-30'')"

fun checkBudget :: "budget_value \<Rightarrow> response + rat option" where
  "checkBudget NoBudget = Inr None"
| "checkBudget BudgetNaN = Inl (Message 400 ''budget must be a number >= 0'')"
| "checkBudget (BudgetNum parsed) =
     (if parsed < 0 then Inl (Message 400 ''budget must be a number >= 0'') else Inr (Some parsed))"

fun checkInterests :: "body_value \<Rightarrow> response + string" where
  "checkInterests (Str i) =
     (if i = [] then Inl (Message 400 ''interests is required (comma-separated)'') else Inr i)"
| "checkInterests b = Inl (Message 400 ''interests is required (comma-separated)'')"

fun checkUser :: "int option \<Rightarrow> response + int" where
  "checkUser (Some u) = (if u = 0 then Inl (Message 401 ''Unauthorized'') else Inr u)"
| "checkUser None = Inl (Message 401 ''Unauthorized'')"

text \<open>The body of the transaction of the creation.\<close>

definition persistTrip :: "(dbop \<Rightarrow> bool) \<Rightarrow> int \<Rightarrow> string \<Rightarrow> int \<Rightarrow> rat option \<Rightarrow> string \<Rightarrow> plan \<Rightarrow> store \<Rightarrow> fault + (trip_view option \<times> store)" where
  "persistTrip faulty userId dest n bud ints p s =
     (if faulty OpTxCreateTrip then Inl (DbFault OpTxCreateTrip)
      else
        let createdTrip = \<lparr>t_id = nextTripId s, t_userId = userId, t_destination = dest,
                             t_daysCount = n, t_budget = bud, t_interests = ints,
                             regenLockUntil = None\<rparr>;
            s1 = s\<lparr>tripTable := tripTable s @ [createdTrip], nextTripId := nextTripId s + 1\<rparr>
        in case createDayPlans faulty (t_id createdTrip) [1..n] s1 of
             Inl e \<Rightarrow> Inl e
           | Inr (newDayPlans, s2) \<Rightarrow>
               (case createPlannedActivities faulty p newDayPlans s2 of
                  Inl e \<Rightarrow> Inl e
                | Inr s3 \<Rightarrow>
                    if faulty OpTxFindTrip then Inl (DbFault OpTxFindTrip)
                    else Inr (tripView (t_id createdTrip) s3, s3)))"

text \<open>What the handler does once the body is accepted: fetch, plan, persist.\<close>

definition createAccepted :: "planner \<Rightarrow> (dbop \<Rightarrow> bool) \<Rightarrow> int \<Rightarrow> string \<Rightarrow> int \<Rightarrow> rat option \<Rightarrow> string \<Rightarrow> store \<Rightarrow> response \<times> store" where
  "createAccepted gen faulty userId dest n bud ints s =
     (if faulty OpFindActivities then (serverError, s)
      else
        (case gen (findManyActivities dest s) n ints of
           Inl e \<Rightarrow> (serverError, s)
         | Inr p \<Rightarrow>
             (case transaction faulty (persistTrip faulty userId dest n bud ints p) s of
                (Inl e, s') \<Rightarrow> (serverError, s')
              | (Inr savedTrip, s') \<Rightarrow> (TripJson 201 savedTrip (warning p), s'))))"

definition createTrip :: "planner \<Rightarrow> (dbop \<Rightarrow> bool) \<Rightarrow> create_request \<Rightarrow> store \<Rightarrow> response \<times> store" where
  "createTrip gen faulty req s =
     (case checkDestination (cr_destination req) of
        Inl r \<Rightarrow> (r, s)
      | Inr dest \<Rightarrow>
          (case checkDaysCount (cr_daysCount req) of
             Inl r \<Rightarrow> (r, s)
           | Inr n \<Rightarrow>
               (case checkBudget (cr_budget req) of
                  Inl r \<Rightarrow> (r, s)
                | Inr bud \<Rightarrow>
                    (case checkInterests (cr_interests req) of
                       Inl r \<Rightarrow> (r, s)
                     | Inr ints \<Rightarrow>
                         (case checkUser (cr_userId req) of
                            Inl r \<Rightarrow> (r, s)
                          | Inr userId \<Rightarrow> createAccepted gen faulty userId dest n bud ints s)))))"

lemma checkDestination_status:
  "checkDestination b = Inl r \<Longrightarrow> status r = 400"
  by (cases b) (auto split: if_splits)

lemma checkDaysCount_refuses:
  "(\<And>n. v = Integer n \<Longrightarrow> n < 1 \<or> 30 < n) \<Longrightarrow>
   checkDaysCount v = Inl (Message 400 ''daysCount must be integer 1-30'')"
  by (cases v) auto

lemma checkDaysCount_accepts:
  "checkDaysCount v = Inr n \<Longrightarrow> v = Integer n \<and> 1 \<le> n \<and> n \<le> 30"
  by (cases v) (auto split: if_splits)

text \<open>A request for 31 days, otherwise well formed.\<close>

definition longRequest :: create_request where
  "longRequest = \<lparr>cr_userId = Some 7, cr_destination = Str ''Paris'', cr_daysCount = Integer 31,
                   cr_budget = NoBudget, cr_interests = Str ''culture''\<rparr>"

text \<open>
  C10. The creation goes on to the fetch of the activities only with a day count that is
  an integer between 1 and 30. With any other day count the response has status 400, the
  store is untouched, and neither the planner nor any call on the store has a part in the
  outcome: the result is the same for every planner and every pattern of rejected calls.
\<close>

theorem createTrip_daysCount_validated:
  "((\<forall>n. cr_daysCount req = Integer n \<longrightarrow> n < 1 \<or> 30 < n) \<longrightarrow>
      status (fst (createTrip gen faulty req s)) = 400 \<and>
      snd (createTrip gen faulty req s) = s \<and>
      createTrip gen' faulty' req s = createTrip gen faulty req s)
   \<and> (status (fst (createTrip gen faulty req s)) \<noteq> 400 \<longrightarrow>
        (\<exists>n. cr_daysCount req = Integer n \<and> 1 \<le> n \<and> n \<le> 30))"
proof (intro conjI impI)
  assume "\<forall>n. cr_daysCount req = Integer n \<longrightarrow> n < 1 \<or> 30 < n"
  then have refused: "checkDaysCount (cr_daysCount req) = Inl (Message 400 ''daysCount must be integer 1-30'')"
    by (simp add: checkDaysCount_refuses)
  show "status (fst (createTrip gen faulty req s)) = 400"
    by (simp add: createTrip_def refused checkDestination_status split: sum.splits)
  show "snd (createTrip gen faulty req s) = s"
    by (simp add: createTrip_def refused split: sum.splits)
  show "createTrip gen' faulty' req s = createTrip gen faulty req s"
    by (simp add: createTrip_def refused split: sum.splits)
next
  assume accepted: "status (fst (createTrip gen faulty req s)) \<noteq> 400"
  show "\<exists>n. cr_daysCount req = Integer n \<and> 1 \<le> n \<and> n \<le> 30"
  proof (cases "checkDaysCount (cr_daysCount req)")
    case (Inl r)
    then have "r = Message 400 ''daysCount must be integer 1-30''"
      by (cases "cr_daysCount req") (auto split: if_splits)
    with Inl accepted show ?thesis
      by (simp add: createTrip_def checkDestination_status split: sum.splits)
  next
    case (Inr n)
    then show ?thesis
      by (auto dest: checkDaysCount_accepts)
  qed
qed

theorem createTrip_daysCount_validated_witness:
  "cr_daysCount longRequest = Integer 31
   \<and> status (fst (createTrip twoThenRest noFault longRequest parisStore)) = 400
   \<and> snd (createTrip twoThenRest noFault longRequest parisStore) = parisStore
   \<and> createTrip (\<lambda>a n i. Inl PlannerFault) secondDayFails longRequest parisStore
       = createTrip twoThenRest noFault longRequest parisStore"
proof -
  have d: "cr_daysCount longRequest = Integer 31"
    by (simp add: longRequest_def)
  then have "\<forall>n. cr_daysCount longRequest = Integer n \<longrightarrow> n < 1 \<or> 30 < n"
    by simp
  with d show ?thesis
    using createTrip_daysCount_validated
            [of longRequest twoThenRest noFault parisStore "\<lambda>a n i. Inl PlannerFault" secondDayFails]
    by blast
qed

section \<open>The rows a (re)generation writes\<close>

text \<open>The day-plan rows of the first loop, from the next free key on.\<close>

fun dayPlanRows :: "int \<Rightarrow> int \<Rightarrow> int list \<Rightarrow> dayPlan list" where
  "dayPlanRows tripId k [] = []"
| "dayPlanRows tripId k (d # ds) =
     \<lparr>dp_id = k, dp_tripId = tripId, dayNumber = d\<rparr> # dayPlanRows tripId (k + 1) ds"

text \<open>The planned-activity rows of one day, and of all the days.\<close>

fun plannedRowsForDay :: "int \<Rightarrow> int \<Rightarrow> nat \<Rightarrow> activity list \<Rightarrow> plannedActivity list" where
  "plannedRowsForDay dpId k i [] = []"
| "plannedRowsForDay dpId k i (a # as) =
     \<lparr>pa_id = k, dayPlanId = dpId, activityId = a_id a, orderIndex = int i + 1\<rparr>
       # plannedRowsForDay dpId (k + 1) (Suc i) as"

fun plannedRows :: "plan \<Rightarrow> int \<Rightarrow> dayPlan list \<Rightarrow> plannedActivity list" where
  "plannedRows p k [] = []"
| "plannedRows p k (dp # dps) =
     plannedRowsForDay (dp_id dp) k 0 (dayItems p (dayNumber dp))
       @ plannedRows p (k + int (length (dayItems p (dayNumber dp)))) dps"

lemma createDayPlans_rows:
  "createDayPlans faulty tripId ds s = Inr (dps, s') \<Longrightarrow>
     dps = dayPlanRows tripId (nextDayPlanId s) ds \<and>
     dayPlanTable s' = dayPlanTable s @ dps \<and>
     plannedActivityTable s' = plannedActivityTable s \<and>
     nextPlannedActivityId s' = nextPlannedActivityId s"
proof (induction ds arbitrary: s dps)
  case Nil
  then show ?case by simp
next
  case (Cons d ds)
  let ?dp = "\<lparr>dp_id = nextDayPlanId s, dp_tripId = tripId, dayNumber = d\<rparr>"
  let ?s1 = "s\<lparr>dayPlanTable := dayPlanTable s @ [?dp], nextDayPlanId := nextDayPlanId s + 1\<rparr>"
  from Cons.prems obtain rest where
    rest: "createDayPlans faulty tripId ds ?s1 = Inr (rest, s')" and dps: "dps = ?dp # rest"
    by (auto simp: Let_def split: if_splits sum.splits)
  from Cons.IH [OF rest] dps show ?case
    by simp
qed

lemma createPlannedForDay_rows:
  "createPlannedForDay faulty d dpId i items s = Inr s' \<Longrightarrow>
     plannedActivityTable s' =
       plannedActivityTable s @ plannedRowsForDay dpId (nextPlannedActivityId s) i items \<and>
     dayPlanTable s' = dayPlanTable s \<and>
     nextPlannedActivityId s' = nextPlannedActivityId s + int (length items)"
proof (induction items arbitrary: s i)
  case Nil
  then show ?case by simp
next
  case (Cons a items)
  let ?s1 = "s\<lparr>plannedActivityTable := plannedActivityTable s @
                [\<lparr>pa_id = nextPlannedActivityId s, dayPlanId = dpId,
                  activityId = a_id a, orderIndex = int i + 1\<rparr>],
             nextPlannedActivityId := nextPlannedActivityId s + 1\<rparr>"
  from Cons.prems have "createPlannedForDay faulty d dpId (Suc i) items ?s1 = Inr s'"
    by (simp split: if_splits)
  from Cons.IH [OF this] show ?case
    by simp
qed

lemma createPlannedActivities_rows:
  "createPlannedActivities faulty p dps s = Inr s' \<Longrightarrow>
     plannedActivityTable s' =
       plannedActivityTable s @ plannedRows p (nextPlannedActivityId s) dps \<and>
     dayPlanTable s' = dayPlanTable s"
proof (induction dps arbitrary: s)
  case Nil
  then show ?case by simp
next
  case (Cons dp dps)
  from Cons.prems obtain s1 where
    one: "createPlannedForDay faulty (dayNumber dp) (dp_id dp) 0 (dayItems p (dayNumber dp)) s = Inr s1"
    and rest: "createPlannedActivities faulty p dps s1 = Inr s'"
    by (auto split: sum.splits)
  from createPlannedForDay_rows [OF one] Cons.IH [OF rest] show ?case
    by simp
qed

subsection \<open>Reading the rows back\<close>

lemma dayPlanRows_dayNumber:
  "map dayNumber (dayPlanRows tripId k ds) = ds"
  by (induction ds arbitrary: k) simp_all

lemma dayPlanRows_tripId:
  "dp \<in> set (dayPlanRows tripId k ds) \<Longrightarrow> dp_tripId dp = tripId"
  by (induction ds arbitrary: k) auto

lemma dayPlanRows_id_lower:
  "dp \<in> set (dayPlanRows tripId k ds) \<Longrightarrow> k \<le> dp_id dp"
  by (induction ds arbitrary: k) force+

lemma dayPlanRows_distinct:
  "distinct (map dp_id (dayPlanRows tripId k ds))"
proof (induction ds arbitrary: k)
  case Nil
  then show ?case by simp
next
  case (Cons d ds)
  have "k \<notin> dp_id ` set (dayPlanRows tripId (k + 1) ds)"
    using dayPlanRows_id_lower [of _ tripId "k + 1" ds] by force
  with Cons.IH [of "k + 1"] show ?case
    by simp
qed

lemma plannedRowsForDay_dayPlanId:
  "pa \<in> set (plannedRowsForDay dpId k i items) \<Longrightarrow> dayPlanId pa = dpId"
  by (induction items arbitrary: k i) auto

lemma plannedRowsForDay_filter:
  "filter (\<lambda>pa. dayPlanId pa = x) (plannedRowsForDay dpId k i items) =
     (if x = dpId then plannedRowsForDay dpId k i items else [])"
  by (induction items arbitrary: k i) auto

lemma plannedRowsForDay_order:
  "map (\<lambda>pa. (activityId pa, orderIndex pa)) (plannedRowsForDay dpId k i items) =
     zip (map a_id items) [int i + 1..int i + int (length items)]"
proof (induction items arbitrary: k i)
  case Nil
  then show ?case by simp
next
  case (Cons a items)
  have "[int i + 1..int i + int (length (a # items))]
          = (int i + 1) # [int (Suc i) + 1..int (Suc i) + int (length items)]"
    by (simp add: upto_rec1 add.commute add.left_commute)
  with Cons.IH [of "k + 1" "Suc i"] show ?case
    by simp
qed

lemma plannedRows_filter_none:
  "x \<notin> dp_id ` set dps \<Longrightarrow> filter (\<lambda>pa. dayPlanId pa = x) (plannedRows p k dps) = []"
  by (induction dps arbitrary: k) (auto simp: plannedRowsForDay_filter)

lemma plannedRows_filter_day:
  "distinct (map dp_id dps) \<Longrightarrow> dp \<in> set dps \<Longrightarrow>
   map (\<lambda>pa. (activityId pa, orderIndex pa))
     (filter (\<lambda>pa. dayPlanId pa = dp_id dp) (plannedRows p k dps)) =
   zip (map a_id (dayItems p (dayNumber dp))) [1..int (length (dayItems p (dayNumber dp)))]"
proof (induction dps arbitrary: k)
  case Nil
  then show ?case by simp
next
  case (Cons d dps)
  show ?case
  proof (cases "dp = d")
    case True
    from Cons.prems(1) have "dp_id d \<notin> dp_id ` set dps"
      by simp
    then have "filter (\<lambda>pa. dayPlanId pa = dp_id d)
                 (plannedRows p (k + int (length (dayItems p (dayNumber d)))) dps) = []"
      by (rule plannedRows_filter_none)
    with True show ?thesis
      using plannedRowsForDay_order [of "dp_id d" k 0 "dayItems p (dayNumber d)"]
      by (simp add: plannedRowsForDay_filter)
  next
    case False
    with Cons.prems have mem: "dp \<in> set dps" and dist: "distinct (map dp_id dps)"
      and "dp_id dp \<noteq> dp_id d"
      by (auto simp: image_iff)
    with Cons.IH [OF dist mem] show ?thesis
      by (simp add: plannedRowsForDay_filter)
  qed
qed

section \<open>The persisted plan of a trip\<close>

definition tripDayPlans :: "int \<Rightarrow> store \<Rightarrow> dayPlan list" where
  "tripDayPlans tripId s = filter (\<lambda>dp. dp_tripId dp = tripId) (dayPlanTable s)"

definition dayPlanActivities :: "int \<Rightarrow> store \<Rightarrow> plannedActivity list" where
  "dayPlanActivities dpId s = filter (\<lambda>pa. dayPlanId pa = dpId) (plannedActivityTable s)"

text \<open>
  The rows of the trip in terms of the day lookup of the handlers: the day numbers of its
  day-plan rows are \<open>1, ..., n\<close>, and the planned activities of the day plan of day \<open>d\<close>
  are what \<open>dayItems\<close> gives for \<open>d\<close>, numbered from 1.
\<close>

definition rowsByDayItems :: "int \<Rightarrow> int \<Rightarrow> plan \<Rightarrow> store \<Rightarrow> bool" where
  "rowsByDayItems tripId n p s \<longleftrightarrow>
     map dayNumber (tripDayPlans tripId s) = [1..n] \<and>
     list_all
       (\<lambda>dp. map (\<lambda>pa. (activityId pa, orderIndex pa)) (dayPlanActivities (dp_id dp) s)
               = zip (map a_id (dayItems p (dayNumber dp)))
                   [1..int (length (dayItems p (dayNumber dp)))])
       (tripDayPlans tripId s)"

text \<open>
  Keys are handed out in increasing order and foreign keys point at existing rows: a
  planned activity refers to a day plan below the day-plan counter, a day plan to a trip
  below the trip counter.
\<close>

definition wellFormed :: "store \<Rightarrow> bool" where
  "wellFormed s \<longleftrightarrow>
     list_all (\<lambda>pa. dayPlanId pa < nextDayPlanId s) (plannedActivityTable s) \<and>
     list_all (\<lambda>dp. dp_tripId dp < nextTripId s) (dayPlanTable s)"

lemma rowsByDayItems_same_rows:
  "dayPlanTable s' = dayPlanTable s \<Longrightarrow> plannedActivityTable s' = plannedActivityTable s \<Longrightarrow>
   rowsByDayItems tripId n p s' = rowsByDayItems tripId n p s"
  by (simp add: rowsByDayItems_def tripDayPlans_def dayPlanActivities_def)

lemma rowsByDayItems_unlock:
  "rowsByDayItems tripId n p (unlock faulty tripId' userId s) = rowsByDayItems tripId n p s"
  by (rule rowsByDayItems_same_rows) (simp_all add: plan_rows_unlock)

lemma written_rowsByDayItems:
  assumes none: "tripDayPlans tripId s1 = []"
    and below: "list_all (\<lambda>pa. dayPlanId pa < nextDayPlanId s1) (plannedActivityTable s1)"
    and days: "createDayPlans faulty tripId [1..n] s1 = Inr (dps, s2)"
    and acts: "createPlannedActivities faulty p dps s2 = Inr s3"
  shows "rowsByDayItems tripId n p s3"
proof -
  from createDayPlans_rows [OF days] have
    dps: "dps = dayPlanRows tripId (nextDayPlanId s1) [1..n]"
    and dt2: "dayPlanTable s2 = dayPlanTable s1 @ dps"
    and pt2: "plannedActivityTable s2 = plannedActivityTable s1"
    by simp_all
  from createPlannedActivities_rows [OF acts] dt2 pt2 have
    dt3: "dayPlanTable s3 = dayPlanTable s1 @ dps"
    and pt3: "plannedActivityTable s3 =
                plannedActivityTable s1 @ plannedRows p (nextPlannedActivityId s2) dps"
    by simp_all
  have own: "filter (\<lambda>dp. dp_tripId dp = tripId) dps = dps"
    using dayPlanRows_tripId [of _ tripId "nextDayPlanId s1" "[1..n]"] dps
    by (simp add: filter_id_conv)
  with none dt3 have rows: "tripDayPlans tripId s3 = dps"
    by (simp add: tripDayPlans_def)
  have numbers: "map dayNumber dps = [1..n]"
    by (simp add: dps dayPlanRows_dayNumber)
  have dist: "distinct (map dp_id dps)"
    by (simp add: dps dayPlanRows_distinct)
  have each: "map (\<lambda>pa. (activityId pa, orderIndex pa)) (dayPlanActivities (dp_id dp) s3)
               = zip (map a_id (dayItems p (dayNumber dp)))
                   [1..int (length (dayItems p (dayNumber dp)))]"
    if mem: "dp \<in> set dps" for dp
  proof -
    from mem dps have "nextDayPlanId s1 \<le> dp_id dp"
      using dayPlanRows_id_lower [of dp tripId "nextDayPlanId s1" "[1..n]"] by simp
    with below have "filter (\<lambda>pa. dayPlanId pa = dp_id dp) (plannedActivityTable s1) = []"
      by (auto simp: list_all_iff filter_empty_conv)
    then show ?thesis
      using plannedRows_filter_day [OF dist mem, of p "nextPlannedActivityId s2"]
      by (simp add: dayPlanActivities_def pt3)
  qed
  from rows numbers each show ?thesis
    by (simp add: rowsByDayItems_def list_all_iff)
qed

lemma deleteOldPlan_clears:
  assumes "deleteOldPlan faulty tripId s = Inr s1"
  shows "tripDayPlans tripId s1 = [] \<and> nextDayPlanId s1 = nextDayPlanId s \<and>
         set (plannedActivityTable s1) \<subseteq> set (plannedActivityTable s)"
proof (cases "filter (\<lambda>dp. dp_tripId dp = tripId) (dayPlanTable s) = []")
  case True
  with assms have "s1 = s"
    by (simp add: deleteOldPlan_def split: if_splits)
  with True show ?thesis
    by (simp add: tripDayPlans_def)
next
  case False
  with assms have
    "s1 = s\<lparr>plannedActivityTable :=
               filter (\<lambda>pa. dayPlanId pa \<notin> set (map dp_id (filter (\<lambda>dp. dp_tripId dp = tripId) (dayPlanTable s))))
                 (plannedActivityTable s),
             dayPlanTable := filter (\<lambda>dp. dp_tripId dp \<noteq> tripId) (dayPlanTable s)\<rparr>"
    by (simp add: deleteOldPlan_def Let_def split: if_splits)
  then show ?thesis
    by (auto simp: tripDayPlans_def filter_empty_conv)
qed

lemma updateInterests_rows:
  "updateInterests faulty tripId eff s = Inr s' \<Longrightarrow>
     dayPlanTable s' = dayPlanTable s \<and> plannedActivityTable s' = plannedActivityTable s \<and>
     nextDayPlanId s' = nextDayPlanId s"
  by (auto simp: updateInterests_def split: if_splits)

lemma replacePlan_persists:
  assumes ok: "replacePlan faulty tripId base eff p s = Inr (v, s')"
    and below: "list_all (\<lambda>pa. dayPlanId pa < nextDayPlanId s) (plannedActivityTable s)"
  shows "rowsByDayItems tripId (t_daysCount base) p s'"
proof -
  from ok obtain s1 s2 dps s3 where
    del: "deleteOldPlan faulty tripId s = Inr s1"
    and upd: "(if eff \<noteq> t_interests base then updateInterests faulty tripId eff s1 else Inr s1) = Inr s2"
    and days: "createDayPlans faulty tripId [1..t_daysCount base] s2 = Inr (dps, s3)"
    and acts: "createPlannedActivities faulty p dps s3 = Inr s'"
    by (auto simp: replacePlan_def split: sum.splits prod.splits if_splits)
  from upd have same: "dayPlanTable s2 = dayPlanTable s1 \<and>
      plannedActivityTable s2 = plannedActivityTable s1 \<and> nextDayPlanId s2 = nextDayPlanId s1"
    by (auto split: if_splits dest: updateInterests_rows)
  from deleteOldPlan_clears [OF del] same have none: "tripDayPlans tripId s2 = []"
    by (simp add: tripDayPlans_def)
  from deleteOldPlan_clears [OF del] same below
  have "list_all (\<lambda>pa. dayPlanId pa < nextDayPlanId s2) (plannedActivityTable s2)"
    by (auto simp: list_all_iff)
  then show ?thesis
    by (rule written_rowsByDayItems [OF none _ days acts])
qed

lemma persistTrip_persists:
  assumes ok: "persistTrip faulty userId dest n bud ints p s = Inr (v, s')"
    and wf: "wellFormed s"
  shows "rowsByDayItems (nextTripId s) n p s'"
proof -
  let ?s1 = "s\<lparr>tripTable := tripTable s @
                 [\<lparr>t_id = nextTripId s, t_userId = userId, t_destination = dest,
                   t_daysCount = n, t_budget = bud, t_interests = ints, regenLockUntil = None\<rparr>],
               nextTripId := nextTripId s + 1\<rparr>"
  from ok obtain dps s2 where
    days: "createDayPlans faulty (nextTripId s) [1..n] ?s1 = Inr (dps, s2)"
    and acts: "createPlannedActivities faulty p dps s2 = Inr s'"
    by (auto simp: persistTrip_def Let_def split: sum.splits prod.splits if_splits)
  from wf have none: "tripDayPlans (nextTripId s) ?s1 = []"
    by (auto simp: wellFormed_def tripDayPlans_def list_all_iff filter_empty_conv)
  from wf have "list_all (\<lambda>pa. dayPlanId pa < nextDayPlanId ?s1) (plannedActivityTable ?s1)"
    by (simp add: wellFormed_def)
  then show ?thesis
    by (rule written_rowsByDayItems [OF none _ days acts])
qed

lemma transaction_committed:
  "transaction faulty body s = (Inr v, s') \<Longrightarrow> body s = Inr (v, s')"
  by (auto simp: transaction_def split: sum.splits prod.splits if_splits)

lemma persisted_AtPersist:
  assumes "status (fst (drive gen faulty req (AtPersist tripId base eff p) s)) = 200"
    and "list_all (\<lambda>pa. dayPlanId pa < nextDayPlanId s) (plannedActivityTable s)"
  shows "rowsByDayItems tripId (t_daysCount base) p
           (snd (drive gen faulty req (AtPersist tripId base eff p) s))"
proof (cases "transaction faulty (replacePlan faulty tripId base eff p) s")
  case (Pair r s')
  show ?thesis
  proof (cases r)
    case (Inl e)
    with Pair assms(1) show ?thesis
      by (simp add: drive_AtPersist serverError_def)
  next
    case (Inr v)
    with Pair have "replacePlan faulty tripId base eff p s = Inr (v, s')"
      by (simp add: transaction_committed)
    then have "rowsByDayItems tripId (t_daysCount base) p s'"
      using assms(2) by (rule replacePlan_persists)
    with Pair Inr show ?thesis
      by (simp add: drive_AtPersist rowsByDayItems_unlock)
  qed
qed

lemma persisted_AtFetch:
  assumes "status (fst (drive gen faulty req (AtFetch tripId base eff) s)) = 200"
    and "list_all (\<lambda>pa. dayPlanId pa < nextDayPlanId s) (plannedActivityTable s)"
  shows "\<exists>p. generatedPlan gen (findManyActivities (t_destination base) s) base eff = Inr p \<and>
             rowsByDayItems tripId (t_daysCount base) p
               (snd (drive gen faulty req (AtFetch tripId base eff) s))"
proof (cases "generatedPlan gen (findManyActivities (t_destination base) s) base eff")
  case (Inl e)
  with assms(1) show ?thesis
    by (simp add: drive_AtFetch serverError_def split: if_splits)
next
  case (Inr p)
  with assms(1) have run: "drive gen faulty req (AtFetch tripId base eff) s
                        = drive gen faulty req (AtPersist tripId base eff p) s"
    by (simp add: drive_AtFetch serverError_def split: if_splits)
  with assms have "rowsByDayItems tripId (t_daysCount base) p
                     (snd (drive gen faulty req (AtPersist tripId base eff p) s))"
    by (simp add: persisted_AtPersist)
  with Inr run show ?thesis
    by simp
qed

lemma findManyActivities_acquireLock:
  "findManyActivities dest (snd (acquireLock req tripId s)) = findManyActivities dest s"
  by (simp add: findManyActivities_def plan_rows_acquireLock)

lemma below_acquireLock:
  "list_all (\<lambda>pa. dayPlanId pa < nextDayPlanId (snd (acquireLock req tripId s)))
     (plannedActivityTable (snd (acquireLock req tripId s)))
   = list_all (\<lambda>pa. dayPlanId pa < nextDayPlanId s) (plannedActivityTable s)"
  by (simp add: acquireLock_def updateManyTrips_def)

lemma persisted_AtAcquire:
  assumes "status (fst (drive gen faulty req (AtAcquire tripId base) s)) = 200"
    and "list_all (\<lambda>pa. dayPlanId pa < nextDayPlanId s) (plannedActivityTable s)"
  shows "\<exists>p. generatedPlan gen (findManyActivities (t_destination base) s) base
                 (effectiveInterests req base) = Inr p \<and>
             rowsByDayItems tripId (t_daysCount base) p
               (snd (drive gen faulty req (AtAcquire tripId base) s))"
proof -
  from assms(1) have run: "drive gen faulty req (AtAcquire tripId base) s
      = drive gen faulty req (AtFetch tripId base (effectiveInterests req base))
          (snd (acquireLock req tripId s))"
    by (auto simp: drive_AtAcquire serverError_def split: if_splits)
  with assms(1) have "status (fst (drive gen faulty req
        (AtFetch tripId base (effectiveInterests req base)) (snd (acquireLock req tripId s)))) = 200"
    by simp
  from persisted_AtFetch [OF this] assms(2) run show ?thesis
    by (simp add: below_acquireLock findManyActivities_acquireLock)
qed

lemma persisted_AtFindBase:
  assumes "status (fst (drive gen faulty req (AtFindBase tripId) s)) = 200"
    and "list_all (\<lambda>pa. dayPlanId pa < nextDayPlanId s) (plannedActivityTable s)"
    and "findUniqueTrip tripId s = Some base"
  shows "\<exists>p. generatedPlan gen (findManyActivities (t_destination base) s) base
                 (effectiveInterests req base) = Inr p \<and>
             rowsByDayItems tripId (t_daysCount base) p
               (snd (drive gen faulty req (AtFindBase tripId) s))"
proof -
  from assms(1,3) have run: "drive gen faulty req (AtFindBase tripId) s
      = drive gen faulty req (AtAcquire tripId base) s"
    by (simp add: drive_AtFindBase serverError_def split: if_splits)
  with assms(1) have "status (fst (drive gen faulty req (AtAcquire tripId base) s)) = 200"
    by simp
  from persisted_AtAcquire [OF this assms(2)] run show ?thesis
    by simp
qed

lemma createTrip_created:
  assumes "status (fst (createTrip gen faulty creq s)) = 201"
  shows "\<exists>userId dest n bud ints p v s'.
           cr_destination creq = Str dest \<and> cr_daysCount creq = Integer n \<and>
           cr_interests creq = Str ints \<and>
           gen (findManyActivities dest s) n ints = Inr p \<and>
           persistTrip faulty userId dest n bud ints p s = Inr (v, s') \<and>
           createTrip gen faulty creq s = (TripJson 201 v (warning p), s')"
proof -
  have r400: "status r \<noteq> 201" if "checkDestination b = Inl r" for b r
    using that by (cases b) (auto split: if_splits)
  have d400: "status r \<noteq> 201" if "checkDaysCount b = Inl r" for b r
    using that by (cases b) (auto split: if_splits)
  have b400: "status r \<noteq> 201" if "checkBudget b = Inl r" for b r
    using that by (cases b) (auto split: if_splits)
  have i400: "status r \<noteq> 201" if "checkInterests b = Inl r" for b r
    using that by (cases b) (auto split: if_splits)
  have u401: "status r \<noteq> 201" if "checkUser b = Inl r" for b r
    using that by (cases b) (auto split: if_splits)
  from assms r400 d400 b400 i400 u401 obtain dest n bud ints userId where
    checks: "checkDestination (cr_destination creq) = Inr dest"
      "checkDaysCount (cr_daysCount creq) = Inr n"
      "checkBudget (cr_budget creq) = Inr bud"
      "checkInterests (cr_interests creq) = Inr ints"
      "checkUser (cr_userId creq) = Inr userId"
    by (auto simp: createTrip_def split: sum.splits)
  then have run: "createTrip gen faulty creq s = createAccepted gen faulty userId dest n bud ints s"
    by (simp add: createTrip_def)
  from checks(1) have dest: "cr_destination creq = Str dest"
    by (cases "cr_destination creq") (auto split: if_splits)
  from checks(2) have n: "cr_daysCount creq = Integer n"
    by (simp add: checkDaysCount_accepts)
  from checks(4) have ints: "cr_interests creq = Str ints"
    by (cases "cr_interests creq") (auto split: if_splits)
  from assms run obtain p where p: "gen (findManyActivities dest s) n ints = Inr p"
    by (auto simp: createAccepted_def serverError_def split: if_splits sum.splits)
  from assms run p obtain v s' where
    tx: "transaction faulty (persistTrip faulty userId dest n bud ints p) s = (Inr v, s')"
    by (auto simp: createAccepted_def serverError_def split: if_splits sum.splits prod.splits)
  then have "persistTrip faulty userId dest n bud ints p s = Inr (v, s')"
    by (rule transaction_committed)
  moreover from assms run p tx have "createTrip gen faulty creq s = (TripJson 201 v (warning p), s')"
    by (simp add: createAccepted_def serverError_def split: if_splits)
  ultimately show ?thesis
    using dest n ints p by blast
qed

section \<open>The plan a generation leaves in the store\<close>

text \<open>
  The day lists a plan provides for a trip of \<open>n\<close> days: its first \<open>n\<close> lists, and an
  empty list for every day the plan lacks.
\<close>

definition expectedDays :: "int \<Rightarrow> plan \<Rightarrow> activity list list" where
  "expectedDays n p = take (nat n) (days p) @ replicate (nat n - length (days p)) []"

text \<open>
  The rows that persist one day list: the activities in their order, by identifier, with
  the order indices \<open>1, 2, ...\<close> up to their number.
\<close>

definition expectedRows :: "activity list \<Rightarrow> (int \<times> int) list" where
  "expectedRows items = zip (map a_id items) [1..int (length items)]"

text \<open>
  What the store holds for a trip: for each of its day-plan rows, in table order, the
  activity and the order index of each planned activity of that day plan, in table order.
\<close>

definition persistedDays :: "int \<Rightarrow> store \<Rightarrow> (int \<times> int) list list" where
  "persistedDays tripId s =
     map (\<lambda>dp. map (\<lambda>pa. (activityId pa, orderIndex pa)) (dayPlanActivities (dp_id dp) s))
       (tripDayPlans tripId s)"

text \<open>
  The store holds plan \<open>p\<close> for a trip of \<open>n\<close> days: the day-plan rows of the trip carry
  the day numbers \<open>1, ..., n\<close>, one row each, and the planned activities of the \<open>d\<close>-th of
  them are the \<open>d\<close>-th day list of the plan.
\<close>

definition planPersisted :: "int \<Rightarrow> int \<Rightarrow> plan \<Rightarrow> store \<Rightarrow> bool" where
  "planPersisted tripId n p s \<longleftrightarrow>
     map dayNumber (tripDayPlans tripId s) = [1..n] \<and>
     persistedDays tripId s = map expectedRows (expectedDays n p)"

lemma dayItems_upto:
  "map (dayItems p) [1..n] = expectedDays n p"
proof (rule nth_equalityI)
  show len: "length (map (dayItems p) [1..n]) = length (expectedDays n p)"
    by (simp add: expectedDays_def)
  fix i
  assume "i < length (map (dayItems p) [1..n])"
  then have i: "i < nat n"
    by simp
  then have "[1..n] ! i = 1 + int i"
    by (simp add: nth_upto)
  then have "map (dayItems p) [1..n] ! i = (if i < length (days p) then days p ! i else [])"
    using i by (simp add: dayItems_def)
  moreover have "expectedDays n p ! i = (if i < length (days p) then days p ! i else [])"
    using i by (simp add: expectedDays_def nth_append)
  ultimately show "map (dayItems p) [1..n] ! i = expectedDays n p ! i"
    by simp
qed

lemma rowsByDayItems_planPersisted:
  assumes "rowsByDayItems tripId n p s"
  shows "planPersisted tripId n p s"
proof -
  from assms have numbers: "map dayNumber (tripDayPlans tripId s) = [1..n]"
    and each: "\<forall>dp \<in> set (tripDayPlans tripId s).
        map (\<lambda>pa. (activityId pa, orderIndex pa)) (dayPlanActivities (dp_id dp) s)
          = expectedRows (dayItems p (dayNumber dp))"
    by (simp_all add: rowsByDayItems_def list_all_iff expectedRows_def)
  from each have "persistedDays tripId s
      = map (\<lambda>dp. expectedRows (dayItems p (dayNumber dp))) (tripDayPlans tripId s)"
    by (simp add: persistedDays_def)
  also have "\<dots> = map expectedRows (map (dayItems p) (map dayNumber (tripDayPlans tripId s)))"
    by (simp add: comp_def)
  also have "\<dots> = map expectedRows (expectedDays n p)"
    by (simp only: numbers dayItems_upto)
  finally show ?thesis
    using numbers by (simp add: planPersisted_def)
qed


text \<open>A well-formed request for a two-day trip to Paris.\<close>

definition shortRequest :: create_request where
  "shortRequest = \<lparr>cr_userId = Some 7, cr_destination = Str ''Paris'', cr_daysCount = Integer 2,
                    cr_budget = NoBudget, cr_interests = Str ''culture''\<rparr>"

definition parisPlan :: plan where
  "parisPlan = \<lparr>days = [[louvre, eiffel], [montmartre]], warning = None\<rparr>"

text \<open>
  A regeneration request whose override is \<open>nature\<close> between a no-break space and a
  space, and a planner that puts the activities of the interest on day 1 and the others
  on day 2.
\<close>

definition paddedRequest :: request where
  "paddedRequest = parisRequest\<lparr>req_interests := Str ([CHR 0xC2, CHR 0xA0] @ ''nature '')\<rparr>"

definition byInterest :: planner where
  "byInterest acts n i =
     Inr \<lparr>days = [filter (\<lambda>a. a_type a = i) acts, filter (\<lambda>a. a_type a \<noteq> i) acts], warning = None\<rparr>"

definition naturePlan :: plan where
  "naturePlan = \<lparr>days = [[montmartre], [louvre, eiffel]], warning = None\<rparr>"

text \<open>
  C6. In a store whose keys are well formed, a regeneration answered 200 and a creation
  answered 201 leave the trip with the generated plan persisted: its day-plan rows carry
  the day numbers \<open>1, ..., daysCount\<close>, one row each, and the planned activities of the
  \<open>d\<close>-th day plan are the activities of the \<open>d\<close>-th list of the plan in their order, with
  the order indices \<open>1, 2, ...\<close> up to their number. The plan is the one generated for
  the activities of the destination, the day count and the interests of the request.
\<close>

theorem generation_persists_plan:
  "(wellFormed s \<and> req_idParam req = Integer tripId \<and> 0 < tripId \<and>
    findUniqueTrip tripId s = Some base \<and>
    status (fst (regenerate gen faulty req s)) = 200 \<longrightarrow>
      (\<exists>p. generatedPlan gen (findManyActivities (t_destination base) s) base
               (effectiveInterests req base) = Inr p \<and>
           planPersisted tripId (t_daysCount base) p (snd (regenerate gen faulty req s))))
   \<and> (wellFormed s \<and> status (fst (createTrip gen faulty creq s)) = 201 \<longrightarrow>
        (\<exists>dest n ints p.
           cr_destination creq = Str dest \<and> cr_daysCount creq = Integer n \<and>
           cr_interests creq = Str ints \<and>
           gen (findManyActivities dest s) n ints = Inr p \<and>
           planPersisted (nextTripId s) n p (snd (createTrip gen faulty creq s))))"
proof (intro conjI impI)
  assume a: "wellFormed s \<and> req_idParam req = Integer tripId \<and> 0 < tripId \<and>
    findUniqueTrip tripId s = Some base \<and> status (fst (regenerate gen faulty req s)) = 200"
  then have st: "start req = AtFindBase tripId"
    by (simp add: start_valid)
  from a have below: "list_all (\<lambda>pa. dayPlanId pa < nextDayPlanId s) (plannedActivityTable s)"
    by (simp add: wellFormed_def)
  from a st have "status (fst (drive gen faulty req (AtFindBase tripId) s)) = 200"
    by (simp add: regenerate_def)
  from persisted_AtFindBase [OF this below] a obtain p where
    "generatedPlan gen (findManyActivities (t_destination base) s) base
       (effectiveInterests req base) = Inr p"
    and "rowsByDayItems tripId (t_daysCount base) p (snd (regenerate gen faulty req s))"
    by (auto simp: regenerate_def st)
  then show "\<exists>p. generatedPlan gen (findManyActivities (t_destination base) s) base
               (effectiveInterests req base) = Inr p \<and>
           planPersisted tripId (t_daysCount base) p (snd (regenerate gen faulty req s))"
    by (blast intro: rowsByDayItems_planPersisted)
next
  assume a: "wellFormed s \<and> status (fst (createTrip gen faulty creq s)) = 201"
  then obtain userId dest n bud ints p v s' where
    c: "cr_destination creq = Str dest" "cr_daysCount creq = Integer n"
       "cr_interests creq = Str ints" "gen (findManyActivities dest s) n ints = Inr p"
    and tx: "persistTrip faulty userId dest n bud ints p s = Inr (v, s')"
    and run: "createTrip gen faulty creq s = (TripJson 201 v (warning p), s')"
    using createTrip_created [of gen faulty creq s] by blast
  from tx a have "rowsByDayItems (nextTripId s) n p s'"
    by (simp add: persistTrip_persists)
  then have "planPersisted (nextTripId s) n p s'"
    by (rule rowsByDayItems_planPersisted)
  with c run show "\<exists>dest n ints p.
           cr_destination creq = Str dest \<and> cr_daysCount creq = Integer n \<and>
           cr_interests creq = Str ints \<and>
           gen (findManyActivities dest s) n ints = Inr p \<and>
           planPersisted (nextTripId s) n p (snd (createTrip gen faulty creq s))"
    by simp
qed

theorem generation_persists_plan_witness:
  "wellFormed parisStore
   \<and> status (fst (regenerate twoThenRest noFault parisRequest parisStore)) = 200
   \<and> status (fst (createTrip twoThenRest noFault shortRequest parisStore)) = 201
   \<and> planPersisted 1 2 parisPlan (snd (regenerate twoThenRest noFault parisRequest parisStore))
   \<and> planPersisted 2 2 parisPlan (snd (createTrip twoThenRest noFault shortRequest parisStore))
   \<and> map expectedRows (expectedDays 2 parisPlan) = [[(1, 1), (2, 2)], [(3, 1)]]
   \<and> dayPlanTable (snd (regenerate twoThenRest noFault parisRequest parisStore))
       = [\<lparr>dp_id = 3, dp_tripId = 1, dayNumber = 1\<rparr>, \<lparr>dp_id = 4, dp_tripId = 1, dayNumber = 2\<rparr>]
   \<and> plannedActivityTable (snd (regenerate twoThenRest noFault parisRequest parisStore))
       = [\<lparr>pa_id = 2, dayPlanId = 3, activityId = 1, orderIndex = 1\<rparr>,
          \<lparr>pa_id = 3, dayPlanId = 3, activityId = 2, orderIndex = 2\<rparr>,
          \<lparr>pa_id = 4, dayPlanId = 4, activityId = 3, orderIndex = 1\<rparr>]
   \<and> effectiveInterests paddedRequest parisTrip = ''nature''
   \<and> status (fst (regenerate byInterest noFault paddedRequest parisStore)) = 200
   \<and> planPersisted 1 2 naturePlan (snd (regenerate byInterest noFault paddedRequest parisStore))
   \<and> map expectedRows (expectedDays 2 naturePlan) = [[(3, 1)], [(1, 1), (2, 2)]]"
proof -
  have wf: "wellFormed parisStore"
    by (simp add: wellFormed_def example_defs)
  have r: "status (fst (regenerate twoThenRest noFault parisRequest parisStore)) = 200"
    by (simp add: example_defs handler_defs)
  have c: "status (fst (createTrip twoThenRest noFault shortRequest parisStore)) = 201"
    by (simp add: example_defs handler_defs shortRequest_def createTrip_def createAccepted_def
          persistTrip_def)
  have e: "req_idParam parisRequest = Integer 1" "(0::int) < 1"
    "findUniqueTrip 1 parisStore = Some parisTrip"
    "generatedPlan twoThenRest (findManyActivities (t_destination parisTrip) parisStore) parisTrip
       (effectiveInterests parisRequest parisTrip) = Inr parisPlan"
    "t_daysCount parisTrip = 2"
    by (simp_all add: example_defs handler_defs parisPlan_def)
  have f: "cr_destination shortRequest = Str ''Paris''" "cr_daysCount shortRequest = Integer 2"
    "cr_interests shortRequest = Str ''culture''"
    "twoThenRest (findManyActivities ''Paris'' parisStore) 2 ''culture'' = Inr parisPlan"
    "nextTripId parisStore = 2"
    by (simp_all add: example_defs handler_defs parisPlan_def shortRequest_def)
  have eff: "effectiveInterests paddedRequest parisTrip = ''nature''"
    by (simp add: paddedRequest_def example_defs handler_defs)
  have r2: "status (fst (regenerate byInterest noFault paddedRequest parisStore)) = 200"
    by (simp add: paddedRequest_def byInterest_def example_defs handler_defs)
  have e2: "req_idParam paddedRequest = Integer 1"
    "generatedPlan byInterest (findManyActivities (t_destination parisTrip) parisStore) parisTrip
       (effectiveInterests paddedRequest parisTrip) = Inr naturePlan"
    by (simp_all add: eff) (simp_all add: paddedRequest_def byInterest_def naturePlan_def
          example_defs generatedPlan_def findManyActivities_def)
  have rows: "map expectedRows (expectedDays 2 parisPlan) = [[(1, 1), (2, 2)], [(3, 1)]]"
    "map expectedRows (expectedDays 2 naturePlan) = [[(3, 1)], [(1, 1), (2, 2)]]"
    by (simp_all add: expectedRows_def expectedDays_def parisPlan_def naturePlan_def example_defs
          upto_rec1)
  have tables:
    "dayPlanTable (snd (regenerate twoThenRest noFault parisRequest parisStore))
       = [\<lparr>dp_id = 3, dp_tripId = 1, dayNumber = 1\<rparr>, \<lparr>dp_id = 4, dp_tripId = 1, dayNumber = 2\<rparr>]"
    "plannedActivityTable (snd (regenerate twoThenRest noFault parisRequest parisStore))
       = [\<lparr>pa_id = 2, dayPlanId = 3, activityId = 1, orderIndex = 1\<rparr>,
          \<lparr>pa_id = 3, dayPlanId = 3, activityId = 2, orderIndex = 2\<rparr>,
          \<lparr>pa_id = 4, dayPlanId = 4, activityId = 3, orderIndex = 1\<rparr>]"
    by (simp_all add: example_defs handler_defs)
  note inst = generation_persists_plan
               [of parisStore parisRequest 1 parisTrip twoThenRest noFault shortRequest]
  note inst2 = generation_persists_plan
               [of parisStore paddedRequest 1 parisTrip byInterest noFault shortRequest]
  from inst wf r e have "planPersisted 1 2 parisPlan
      (snd (regenerate twoThenRest noFault parisRequest parisStore))"
    by auto
  moreover from inst wf c f have "planPersisted 2 2 parisPlan
      (snd (createTrip twoThenRest noFault shortRequest parisStore))"
    by auto
  moreover from inst2 wf r2 e e2 have "planPersisted 1 2 naturePlan
      (snd (regenerate byInterest noFault paddedRequest parisStore))"
    by auto
  ultimately show ?thesis
    using wf r c rows tables eff r2 by simp
qed

section \<open>Regenerating with an empty catalog\<close>

lemma dayItems_emptyPlan:
  "dayItems (emptyPlan n) d = []"
  by (simp add: dayItems_def emptyPlan_def)

lemma plannedRows_emptyPlan:
  "plannedRows (emptyPlan n) k dps = []"
  by (induction dps arbitrary: k) (simp_all add: dayItems_emptyPlan)

lemma createPlannedActivities_emptyPlan:
  "createPlannedActivities faulty (emptyPlan n) dps s = Inr s"
  by (induction dps) (simp_all add: dayItems_emptyPlan)

lemma createDayPlans_no_fault:
  "(\<And>d. \<not> faulty (OpTxCreateDayPlan d)) \<Longrightarrow>
   \<exists>dps s'. createDayPlans faulty tripId ds s = Inr (dps, s')"
proof (induction ds arbitrary: s)
  case Nil
  then show ?case by simp
next
  case (Cons d ds)
  let ?s1 = "s\<lparr>dayPlanTable := dayPlanTable s @
                 [\<lparr>dp_id = nextDayPlanId s, dp_tripId = tripId, dayNumber = d\<rparr>],
               nextDayPlanId := nextDayPlanId s + 1\<rparr>"
  from Cons.IH [OF Cons.prems, of ?s1] obtain dps s' where
    "createDayPlans faulty tripId ds ?s1 = Inr (dps, s')"
    by blast
  with Cons.prems show ?case
    by (simp add: Let_def)
qed

lemma deleteOldPlan_tables:
  assumes "deleteOldPlan faulty tripId s = Inr s1"
  shows "dayPlanTable s1 = filter (\<lambda>dp. dp_tripId dp \<noteq> tripId) (dayPlanTable s) \<and>
         plannedActivityTable s1 =
           filter (\<lambda>pa. dayPlanId pa \<notin> dp_id ` set (tripDayPlans tripId s)) (plannedActivityTable s) \<and>
         nextDayPlanId s1 = nextDayPlanId s \<and> tripTable s1 = tripTable s"
proof (cases "filter (\<lambda>dp. dp_tripId dp = tripId) (dayPlanTable s) = []")
  case True
  with assms have "s1 = s"
    by (simp add: deleteOldPlan_def split: if_splits)
  moreover from True have "filter (\<lambda>dp. dp_tripId dp \<noteq> tripId) (dayPlanTable s) = dayPlanTable s"
    by (auto simp: filter_empty_conv filter_id_conv)
  ultimately show ?thesis
    using True by (simp add: tripDayPlans_def)
next
  case False
  with assms have
    "s1 = s\<lparr>plannedActivityTable :=
               filter (\<lambda>pa. dayPlanId pa \<notin> set (map dp_id (filter (\<lambda>dp. dp_tripId dp = tripId) (dayPlanTable s))))
                 (plannedActivityTable s),
             dayPlanTable := filter (\<lambda>dp. dp_tripId dp \<noteq> tripId) (dayPlanTable s)\<rparr>"
    by (simp add: deleteOldPlan_def Let_def split: if_splits)
  then show ?thesis
    by (simp add: tripDayPlans_def)
qed

lemma updateInterests_no_fault:
  "\<not> faulty OpTxUpdateTrip \<Longrightarrow> findUniqueTrip tripId s \<noteq> None \<Longrightarrow>
   \<exists>s'. updateInterests faulty tripId eff s = Inr s'"
  by (simp add: updateInterests_def)

lemma findUniqueTrip_owners:
  "findUniqueTrip tripId s \<noteq> None \<longleftrightarrow> tripId \<in> fst ` set (owners s)"
  by (force simp: findUniqueTrip_def owners_def find_None_iff image_iff)

text \<open>With an empty plan the replacement succeeds when none of its calls is rejected.\<close>

lemma deleteOldPlan_no_fault:
  assumes "\<not> faulty OpTxFindDayPlans" and "\<not> faulty OpTxDeletePlannedActivities"
    and "\<not> faulty OpTxDeleteDayPlans"
  shows "\<exists>s1. deleteOldPlan faulty tripId s = Inr s1"
proof (cases "filter (\<lambda>dp. dp_tripId dp = tripId) (dayPlanTable s) = []")
  case True
  with assms show ?thesis by (simp add: deleteOldPlan_def)
next
  case False
  with assms show ?thesis by (simp add: deleteOldPlan_def)
qed

lemma replacePlan_emptyPlan_no_fault:
  assumes nf: "\<And>op. \<not> faulty op" and ex: "findUniqueTrip tripId s \<noteq> None"
  shows "\<exists>v s'. replacePlan faulty tripId base eff (emptyPlan n) s = Inr (v, s')"
proof -
  obtain s1 where del: "deleteOldPlan faulty tripId s = Inr s1"
    using deleteOldPlan_no_fault [of faulty tripId s] nf by blast
  from deleteOldPlan_tables [OF del] ex have "findUniqueTrip tripId s1 \<noteq> None"
    by (simp add: findUniqueTrip_def)
  then obtain s1' where upd: "updateInterests faulty tripId eff s1 = Inr s1'"
    using updateInterests_no_fault [of faulty tripId s1 eff] nf by blast
  have find: "\<not> faulty OpTxFindTrip"
    by (rule nf)
  show ?thesis
  proof (cases "eff \<noteq> t_interests base")
    case True
    obtain dps s3 where "createDayPlans faulty tripId [1..t_daysCount base] s1' = Inr (dps, s3)"
      using createDayPlans_no_fault [of faulty tripId "[1..t_daysCount base]" s1'] nf by blast
    with True find del upd show ?thesis
      by (simp add: replacePlan_def createPlannedActivities_emptyPlan)
  next
    case False
    obtain dps s3 where "createDayPlans faulty tripId [1..t_daysCount base] s1 = Inr (dps, s3)"
      using createDayPlans_no_fault [of faulty tripId "[1..t_daysCount base]" s1] nf by blast
    with False find del show ?thesis
      by (simp add: replacePlan_def createPlannedActivities_emptyPlan)
  qed
qed

lemma replacePlan_emptyPlan_tables:
  assumes "replacePlan faulty tripId base eff (emptyPlan n) s = Inr (v, s')"
  shows "dayPlanTable s' = filter (\<lambda>dp. dp_tripId dp \<noteq> tripId) (dayPlanTable s)
                             @ dayPlanRows tripId (nextDayPlanId s) [1..t_daysCount base] \<and>
         plannedActivityTable s' =
           filter (\<lambda>pa. dayPlanId pa \<notin> dp_id ` set (tripDayPlans tripId s)) (plannedActivityTable s)"
proof -
  from assms obtain s1 s2 dps s3 where
    del: "deleteOldPlan faulty tripId s = Inr s1"
    and upd: "(if eff \<noteq> t_interests base then updateInterests faulty tripId eff s1 else Inr s1) = Inr s2"
    and days: "createDayPlans faulty tripId [1..t_daysCount base] s2 = Inr (dps, s3)"
    and acts: "createPlannedActivities faulty (emptyPlan n) dps s3 = Inr s'"
    by (auto simp: replacePlan_def split: sum.splits prod.splits if_splits)
  from upd have same: "dayPlanTable s2 = dayPlanTable s1 \<and>
      plannedActivityTable s2 = plannedActivityTable s1 \<and> nextDayPlanId s2 = nextDayPlanId s1"
    by (auto split: if_splits dest: updateInterests_rows)
  from acts have "s' = s3"
    by (simp add: createPlannedActivities_emptyPlan)
  with deleteOldPlan_tables [OF del] same createDayPlans_rows [OF days] show ?thesis
    by simp
qed

lemma acquireLock_counters:
  "nextDayPlanId (snd (acquireLock req tripId s)) = nextDayPlanId s \<and>
   tripDayPlans tripId' (snd (acquireLock req tripId s)) = tripDayPlans tripId' s"
  by (simp add: acquireLock_def updateManyTrips_def tripDayPlans_def)

lemma acquireLock_keeps_trip:
  "findUniqueTrip tripId s \<noteq> None \<Longrightarrow> findUniqueTrip tripId (snd (acquireLock req tripId' s)) \<noteq> None"
  unfolding findUniqueTrip_owners owners_acquireLock by simp

text \<open>The Paris store with an empty catalog.\<close>

definition emptyCatalogStore :: store where
  "emptyCatalogStore = parisStore\<lparr>activityTable := []\<rparr>"

text \<open>
  C5, as the code has it. For a trip of the caller whose destination has no activity in
  the catalog: the outcome of the regeneration is the same for every planner (the planner
  is not called); the plan is one empty list per requested day with the warning
  \<open>No activities found for destination\<close>; a regeneration answered 200 carries that
  warning, has removed the day plans of the trip and their planned activities, has
  created the day plans of days \<open>1, ..., daysCount\<close> and no planned activity; and the
  regeneration is answered 200 when the lock is free, the override of the interests (if
  any) is a non-blank string and no call on the store is rejected.
\<close>

theorem regenerate_empty_catalog:
  assumes "req_idParam req = Integer tripId" and "0 < tripId"
    and "findUniqueTrip tripId s = Some base" and "t_userId base = req_userId req"
    and "findManyActivities (t_destination base) s = []"
  shows "regenerate gen' faulty req s = regenerate gen faulty req s
       \<and> generatedPlan gen (findManyActivities (t_destination base) s) base eff
           = Inr \<lparr>days = replicate (nat (t_daysCount base)) [],
                   warning = Some ''No activities found for destination''\<rparr>
       \<and> (status (fst (regenerate gen faulty req s)) = 200 \<longrightarrow>
            warningOf (fst (regenerate gen faulty req s)) = Some ''No activities found for destination'' \<and>
            dayPlanTable (snd (regenerate gen faulty req s))
              = filter (\<lambda>dp. dp_tripId dp \<noteq> tripId) (dayPlanTable s)
                  @ dayPlanRows tripId (nextDayPlanId s) [1..t_daysCount base] \<and>
            plannedActivityTable (snd (regenerate gen faulty req s))
              = filter (\<lambda>pa. dayPlanId pa \<notin> dp_id ` set (tripDayPlans tripId s))
                  (plannedActivityTable s))
       \<and> ((\<forall>op. \<not> faulty op) \<and> lockFree tripId (req_userId req) (req_now req) base \<and>
           \<not> overrideInvalid (req_interests req) \<longrightarrow>
            status (fst (regenerate gen faulty req s)) = 200)"
proof -
  let ?s1 = "snd (acquireLock req tripId s)"
  let ?eff = "effectiveInterests req base"
  let ?p = "emptyPlan (t_daysCount base)"
  let ?u = "req_userId req"
  from assms(1,2) have st: "start req = AtFindBase tripId"
    by (rule start_valid)
  from assms(5) have empty1: "findManyActivities (t_destination base) ?s1 = []"
    by (simp add: findManyActivities_acquireLock)
  have fetch: "drive g faulty req (AtFetch tripId base ?eff) ?s1 =
      (if faulty OpFindActivities then (serverError, unlock faulty tripId ?u ?s1)
       else drive g faulty req (AtPersist tripId base ?eff ?p) ?s1)" for g
    by (simp add: drive_AtFetch generatedPlan_def empty1)
  have persist: "drive g faulty req (AtPersist tripId base ?eff ?p) ?s1
      = drive gen faulty req (AtPersist tripId base ?eff ?p) ?s1" for g
    by (simp add: drive_AtPersist)
  have "drive g faulty req (AtFetch tripId base ?eff) ?s1
      = drive gen faulty req (AtFetch tripId base ?eff) ?s1" for g
    by (simp add: fetch persist [of g])
  then have "drive gen' faulty req (AtAcquire tripId base) s
      = drive gen faulty req (AtAcquire tripId base) s"
    by (simp add: drive_AtAcquire)
  then have indep: "regenerate gen' faulty req s = regenerate gen faulty req s"
    by (simp add: regenerate_def st drive_AtFindBase assms(3))
  have synth: "generatedPlan gen (findManyActivities (t_destination base) s) base eff
           = Inr \<lparr>days = replicate (nat (t_daysCount base)) [],
                   warning = Some ''No activities found for destination''\<rparr>"
    by (simp add: generatedPlan_def assms(5) emptyPlan_def)
  have outcome: "warningOf (fst (regenerate gen faulty req s)) = Some ''No activities found for destination'' \<and>
            dayPlanTable (snd (regenerate gen faulty req s))
              = filter (\<lambda>dp. dp_tripId dp \<noteq> tripId) (dayPlanTable s)
                  @ dayPlanRows tripId (nextDayPlanId s) [1..t_daysCount base] \<and>
            plannedActivityTable (snd (regenerate gen faulty req s))
              = filter (\<lambda>pa. dayPlanId pa \<notin> dp_id ` set (tripDayPlans tripId s))
                  (plannedActivityTable s)"
    if ok: "status (fst (regenerate gen faulty req s)) = 200"
  proof -
    from ok assms(3) have run: "regenerate gen faulty req s
        = drive gen faulty req (AtPersist tripId base ?eff ?p) ?s1"
      by (auto simp: regenerate_def st drive_AtFindBase drive_AtAcquire fetch serverError_def
               split: if_splits)
    obtain r s' where tx: "transaction faulty (replacePlan faulty tripId base ?eff ?p) ?s1 = (r, s')"
      by (cases "transaction faulty (replacePlan faulty tripId base ?eff ?p) ?s1")
    show ?thesis
    proof (cases r)
      case (Inl e)
      with ok run tx show ?thesis
        by (simp add: drive_AtPersist serverError_def)
    next
      case (Inr v)
      with tx have "replacePlan faulty tripId base ?eff ?p ?s1 = Inr (v, s')"
        by (simp add: transaction_committed)
      from replacePlan_emptyPlan_tables [OF this] Inr tx run show ?thesis
        by (simp add: drive_AtPersist plan_rows_unlock plan_rows_acquireLock acquireLock_counters
              emptyPlan_def)
    qed
  qed
  have success: "status (fst (regenerate gen faulty req s)) = 200"
    if nf: "\<forall>op. \<not> faulty op" and free: "lockFree tripId (req_userId req) (req_now req) base"
      and i1: "\<not> overrideInvalid (req_interests req)"
  proof -
    from assms(3) have "base \<in> set (tripTable s)"
      by (auto simp: findUniqueTrip_def find_Some_iff in_set_conv_nth)
    with free have acq: "fst (acquireLock req tripId s) \<noteq> 0"
      by (auto simp: acquireLock_count list_all_iff)
    from assms(3) have "findUniqueTrip tripId ?s1 \<noteq> None"
      by (simp add: acquireLock_keeps_trip)
    with nf obtain v s' where "replacePlan faulty tripId base ?eff ?p ?s1 = Inr (v, s')"
      using replacePlan_emptyPlan_no_fault [of faulty tripId ?s1 base ?eff "t_daysCount base"]
      by blast
    with nf have "status (fst (drive gen faulty req (AtPersist tripId base ?eff ?p) ?s1)) = 200"
      by (simp add: drive_AtPersist transaction_def)
    with nf acq i1 assms(3,4) show ?thesis
      by (simp add: regenerate_def st drive_AtFindBase drive_AtAcquire fetch)
  qed
  from indep synth outcome success show ?thesis
    by blast
qed

theorem regenerate_empty_catalog_witness:
  "findManyActivities (t_destination parisTrip) emptyCatalogStore = []
   \<and> regenerate (\<lambda>a n i. Inl PlannerFault) noFault parisRequest emptyCatalogStore
       = regenerate twoThenRest noFault parisRequest emptyCatalogStore
   \<and> status (fst (regenerate twoThenRest noFault parisRequest emptyCatalogStore)) = 200
   \<and> warningOf (fst (regenerate twoThenRest noFault parisRequest emptyCatalogStore))
       = Some ''No activities found for destination''
   \<and> dayPlanTable (snd (regenerate twoThenRest noFault parisRequest emptyCatalogStore))
       = [\<lparr>dp_id = 3, dp_tripId = 1, dayNumber = 1\<rparr>, \<lparr>dp_id = 4, dp_tripId = 1, dayNumber = 2\<rparr>]
   \<and> plannedActivityTable (snd (regenerate twoThenRest noFault parisRequest emptyCatalogStore)) = []"
proof -
  have h: "req_idParam parisRequest = Integer 1" "(0::int) < 1"
    "findUniqueTrip 1 emptyCatalogStore = Some parisTrip"
    "t_userId parisTrip = req_userId parisRequest"
    "findManyActivities (t_destination parisTrip) emptyCatalogStore = []"
    by (simp_all add: example_defs emptyCatalogStore_def findUniqueTrip_def findManyActivities_def)
  have c: "\<forall>op. \<not> noFault op" "lockFree 1 (req_userId parisRequest) (req_now parisRequest) parisTrip"
    "\<not> overrideInvalid (req_interests parisRequest)"
    by (simp_all add: example_defs lockFree_def overrideInvalid_def)
  have e: "filter (\<lambda>dp. dp_tripId dp \<noteq> 1) (dayPlanTable emptyCatalogStore)
             @ dayPlanRows 1 (nextDayPlanId emptyCatalogStore) [1..t_daysCount parisTrip]
           = [\<lparr>dp_id = 3, dp_tripId = 1, dayNumber = 1\<rparr>, \<lparr>dp_id = 4, dp_tripId = 1, dayNumber = 2\<rparr>]"
    "filter (\<lambda>pa. dayPlanId pa \<notin> dp_id ` set (tripDayPlans 1 emptyCatalogStore))
       (plannedActivityTable emptyCatalogStore) = []"
    by (simp_all add: example_defs emptyCatalogStore_def tripDayPlans_def upto_rec1)
  from regenerate_empty_catalog [OF h, of "\<lambda>a n i. Inl PlannerFault" noFault twoThenRest "''culture''"]
    c h(5) e show ?thesis
    by simp
qed

text \<open>
  C5 as written quotes the warning in lower case. At the empty catalog the regeneration
  succeeds, and its warning is not that string.
\<close>

theorem empty_catalog_warning_counterexample:
  "findManyActivities (t_destination parisTrip) emptyCatalogStore = []
   \<and> status (fst (regenerate twoThenRest noFault parisRequest emptyCatalogStore)) = 200
   \<and> warningOf (fst (regenerate twoThenRest noFault parisRequest emptyCatalogStore))
       \<noteq> Some ''no activities found for destination''"
  by (simp add: example_defs handler_defs emptyCatalogStore_def)

section \<open>Regenerating after the lock ran out\<close>

lemma createPlannedForDay_no_fault:
  "(\<And>op. \<not> faulty op) \<Longrightarrow> \<exists>s'. createPlannedForDay faulty d dpId i items s = Inr s'"
  by (induction items arbitrary: s i) simp_all

lemma createPlannedActivities_no_fault:
  "(\<And>op. \<not> faulty op) \<Longrightarrow> \<exists>s'. createPlannedActivities faulty p dps s = Inr s'"
proof (induction dps arbitrary: s)
  case Nil
  then show ?case by simp
next
  case (Cons dp dps)
  from Cons.prems obtain s1 where
    "createPlannedForDay faulty (dayNumber dp) (dp_id dp) 0 (dayItems p (dayNumber dp)) s = Inr s1"
    using createPlannedForDay_no_fault [of faulty] by blast
  with Cons.IH [OF Cons.prems, of s1] show ?case
    by simp
qed

lemma replacePlan_no_fault:
  assumes nf: "\<And>op. \<not> faulty op" and ex: "findUniqueTrip tripId s \<noteq> None"
  shows "\<exists>v s'. replacePlan faulty tripId base eff p s = Inr (v, s')"
proof -
  obtain s1 where del: "deleteOldPlan faulty tripId s = Inr s1"
    using deleteOldPlan_no_fault [of faulty tripId s] nf by blast
  from deleteOldPlan_tables [OF del] ex have "findUniqueTrip tripId s1 \<noteq> None"
    by (simp add: findUniqueTrip_def)
  then obtain s1' where upd: "updateInterests faulty tripId eff s1 = Inr s1'"
    using updateInterests_no_fault [of faulty tripId s1 eff] nf by blast
  have find: "\<not> faulty OpTxFindTrip"
    by (rule nf)
  show ?thesis
  proof (cases "eff \<noteq> t_interests base")
    case True
    obtain dps s3 where days: "createDayPlans faulty tripId [1..t_daysCount base] s1' = Inr (dps, s3)"
      using createDayPlans_no_fault [of faulty tripId "[1..t_daysCount base]" s1'] nf by blast
    obtain s4 where "createPlannedActivities faulty p dps s3 = Inr s4"
      using createPlannedActivities_no_fault [of faulty p dps s3] nf by blast
    with True find del upd days show ?thesis
      by (simp add: replacePlan_def)
  next
    case False
    obtain dps s3 where days: "createDayPlans faulty tripId [1..t_daysCount base] s1 = Inr (dps, s3)"
      using createDayPlans_no_fault [of faulty tripId "[1..t_daysCount base]" s1] nf by blast
    obtain s4 where "createPlannedActivities faulty p dps s3 = Inr s4"
      using createPlannedActivities_no_fault [of faulty p dps s3] nf by blast
    with False find del days show ?thesis
      by (simp add: replacePlan_def)
  qed
qed

lemma findUniqueTrip_distinct:
  assumes "distinct (map t_id (tripTable s))" and "t \<in> set (tripTable s)"
  shows "findUniqueTrip (t_id t) s = Some t"
proof -
  from assms(2) have "find (\<lambda>x. t_id x = t_id t) (tripTable s) \<noteq> None"
    by (auto simp: find_None_iff)
  then obtain x where x: "find (\<lambda>x. t_id x = t_id t) (tripTable s) = Some x"
    by blast
  then have "x \<in> set (tripTable s)" and "t_id x = t_id t"
    by (auto simp: find_Some_iff in_set_conv_nth)
  with assms have "x = t"
    using same_id_same_row [of s t x] by simp
  with x show ?thesis
    by (simp add: findUniqueTrip_def)
qed

text \<open>
  A request of the owner that acquires the lock, with a valid override, a planner that
  returns and no rejected call, is answered 200 with the warning of the plan.
\<close>

lemma regenerate_succeeds:
  assumes nf: "\<And>op. \<not> faulty op"
    and valid: "req_idParam req = Integer tripId" "0 < tripId"
    and found: "findUniqueTrip tripId s = Some base" and owner: "t_userId base = req_userId req"
    and acquired: "fst (acquireLock req tripId s) \<noteq> 0"
    and override: "\<not> overrideInvalid (req_interests req)"
    and planned: "generatedPlan gen (findManyActivities (t_destination base) s) base
                    (effectiveInterests req base) = Inr p"
  shows "status (fst (regenerate gen faulty req s)) = 200 \<and>
         warningOf (fst (regenerate gen faulty req s)) = warning p"
proof -
  let ?s1 = "snd (acquireLock req tripId s)"
  let ?eff = "effectiveInterests req base"
  from valid have st: "start req = AtFindBase tripId"
    by (rule start_valid)
  from found have "findUniqueTrip tripId ?s1 \<noteq> None"
    by (simp add: acquireLock_keeps_trip)
  then obtain v s' where "replacePlan faulty tripId base ?eff p ?s1 = Inr (v, s')"
    using replacePlan_no_fault [of faulty tripId ?s1 base ?eff p] nf by blast
  with nf have persist: "drive gen faulty req (AtPersist tripId base ?eff p) ?s1
      = (TripJson 200 v (warning p), unlock faulty tripId (req_userId req) s')"
    by (simp add: drive_AtPersist transaction_def)
  from planned have "generatedPlan gen (findManyActivities (t_destination base) ?s1) base ?eff = Inr p"
    by (simp add: findManyActivities_acquireLock)
  with nf persist have "drive gen faulty req (AtFetch tripId base ?eff) ?s1
      = (TripJson 200 v (warning p), unlock faulty tripId (req_userId req) s')"
    by (simp add: drive_AtFetch)
  with nf acquired override have "drive gen faulty req (AtAcquire tripId base) s
      = (TripJson 200 v (warning p), unlock faulty tripId (req_userId req) s')"
    by (simp add: drive_AtAcquire)
  with nf found owner show ?thesis
    by (simp add: regenerate_def st drive_AtFindBase)
qed


text \<open>The same trip with a lock that ran out before the request.\<close>

definition staleTrip :: trip where
  "staleTrip = parisTrip\<lparr>regenLockUntil := Some 500\<rparr>"

definition staleStore :: store where
  "staleStore = parisStore\<lparr>tripTable := [staleTrip]\<rparr>"

text \<open>
  C4. For the trip of the caller (trip identifiers are unique), the acquisition matches a
  row exactly when the lock field is null or strictly before the \<open>now\<close> of the request;
  when it does, the lock field of the trip becomes the clock reading of the request plus
  two minutes and no other row changes, and the handler goes on from the acquisition to
  the fetch of the activities on that store. A request that finds the lock in the past is
  never answered 409; when moreover no call is rejected, the override of the interests is
  valid and the planner returns a plan, it is answered 200 with the warning of that plan,
  the plan is persisted and the lock is null again afterwards.
\<close>

theorem lock_self_expiry:
  assumes "distinct (map t_id (tripTable s))" and "t \<in> set (tripTable s)"
    and "t_id t = tripId" and "t_userId t = req_userId req"
  shows "(fst (acquireLock req tripId s) \<noteq> 0
            \<longleftrightarrow> regenLockUntil t = None \<or> (\<exists>u. regenLockUntil t = Some u \<and> u < req_now req))
       \<and> (fst (acquireLock req tripId s) \<noteq> 0 \<longrightarrow>
            tripTable (snd (acquireLock req tripId s))
              = map (\<lambda>x. if t_id x = tripId
                          then x\<lparr>regenLockUntil := Some (req_dateNow req + 2 * 60 * 1000)\<rparr> else x)
                  (tripTable s))
       \<and> ((\<exists>u. regenLockUntil t = Some u \<and> u < req_now req) \<and>
            req_idParam req = Integer tripId \<and> 0 < tripId \<longrightarrow>
            status (fst (regenerate gen faulty req s)) \<noteq> 409)
       \<and> ((regenLockUntil t = None \<or> (\<exists>u. regenLockUntil t = Some u \<and> u < req_now req)) \<and>
            \<not> faulty OpAcquireLock \<and> \<not> overrideInvalid (req_interests req) \<longrightarrow>
            step gen faulty req (AtAcquire tripId t) s
              = (AtFetch tripId t (effectiveInterests req t), snd (acquireLock req tripId s)))
       \<and> ((\<exists>u. regenLockUntil t = Some u \<and> u < req_now req) \<and>
            req_idParam req = Integer tripId \<and> 0 < tripId \<and>
            (\<forall>op. \<not> faulty op) \<and> \<not> overrideInvalid (req_interests req) \<and>
            generatedPlan gen (findManyActivities (t_destination t) s) t
              (effectiveInterests req t) = Inr p \<and>
            wellFormed s \<longrightarrow>
            status (fst (regenerate gen faulty req s)) = 200 \<and>
            warningOf (fst (regenerate gen faulty req s)) = warning p \<and>
            planPersisted tripId (t_daysCount t) p (snd (regenerate gen faulty req s)) \<and>
            lockCleared tripId (req_userId req) (snd (regenerate gen faulty req s)))"
proof -
  let ?expired = "\<exists>u. regenLockUntil t = Some u \<and> u < req_now req"
  have iff: "fst (acquireLock req tripId s) \<noteq> 0 \<longleftrightarrow> regenLockUntil t = None \<or> ?expired"
    using acquireLock_succeeds_iff [OF assms] lockFree_expiry [OF assms(3,4)] by simp
  have tab: "tripTable (snd (acquireLock req tripId s))
              = map (\<lambda>x. if t_id x = tripId
                          then x\<lparr>regenLockUntil := Some (req_dateNow req + 2 * 60 * 1000)\<rparr> else x)
                  (tripTable s)"
    if "fst (acquireLock req tripId s) \<noteq> 0"
    using that acquireLock_succeeds_iff [OF assms] acquireLock_table [OF assms(1,2,3)] by simp
  have not409: "status (fst (regenerate gen faulty req s)) \<noteq> 409"
    if "?expired" and "req_idParam req = Integer tripId" and "0 < tripId"
  proof -
    from that(1) iff have "fst (acquireLock req tripId s) \<noteq> 0"
      by simp
    then show ?thesis
      by (simp add: regenerate_def start_valid [OF that(2,3)] not409_AtFindBase)
  qed
  have goes_on: "step gen faulty req (AtAcquire tripId t) s
              = (AtFetch tripId t (effectiveInterests req t), snd (acquireLock req tripId s))"
    if "regenLockUntil t = None \<or> ?expired" and "\<not> faulty OpAcquireLock"
      and "\<not> overrideInvalid (req_interests req)"
  proof -
    from that(1) iff have "fst (acquireLock req tripId s) \<noteq> 0"
      by simp
    with that(2,3) show ?thesis
      by (simp add: split_beta)
  qed
  from assms(1,2,3) have found: "findUniqueTrip tripId s = Some t"
    using findUniqueTrip_distinct [of s t] by simp
  have again: "status (fst (regenerate gen faulty req s)) = 200 \<and>
            warningOf (fst (regenerate gen faulty req s)) = warning p \<and>
            planPersisted tripId (t_daysCount t) p (snd (regenerate gen faulty req s)) \<and>
            lockCleared tripId (req_userId req) (snd (regenerate gen faulty req s))"
    if expired: "?expired" and valid: "req_idParam req = Integer tripId" "0 < tripId"
      and nf: "\<forall>op. \<not> faulty op" and override: "\<not> overrideInvalid (req_interests req)"
      and planned: "generatedPlan gen (findManyActivities (t_destination t) s) t
                      (effectiveInterests req t) = Inr p"
      and wf: "wellFormed s"
  proof -
    from expired iff have acquired: "fst (acquireLock req tripId s) \<noteq> 0"
      by simp
    from nf have nf': "\<And>op. \<not> faulty op"
      by simp
    have ok: "status (fst (regenerate gen faulty req s)) = 200 \<and>
              warningOf (fst (regenerate gen faulty req s)) = warning p"
      using nf' valid found assms(4) acquired override planned by (rule regenerate_succeeds)
    from valid have st: "start req = AtFindBase tripId"
      by (rule start_valid)
    from wf have below: "list_all (\<lambda>pa. dayPlanId pa < nextDayPlanId s) (plannedActivityTable s)"
      by (simp add: wellFormed_def)
    from ok st have "status (fst (drive gen faulty req (AtFindBase tripId) s)) = 200"
      by (simp add: regenerate_def)
    from persisted_AtFindBase [OF this below found] planned
    have "rowsByDayItems tripId (t_daysCount t) p (snd (regenerate gen faulty req s))"
      by (auto simp: regenerate_def st)
    then have "planPersisted tripId (t_daysCount t) p (snd (regenerate gen faulty req s))"
      by (rule rowsByDayItems_planPersisted)
    moreover from nf have "lockCleared tripId (req_userId req) (snd (regenerate gen faulty req s))"
      by (simp add: regenerate_def st cleared_AtFindBase)
    ultimately show ?thesis
      using ok by simp
  qed
  from iff tab not409 goes_on again show ?thesis
    by blast
qed

theorem lock_self_expiry_witness:
  "regenLockUntil staleTrip = Some 500 \<and> (500::int) < req_now parisRequest
   \<and> fst (acquireLock parisRequest 1 staleStore) \<noteq> 0
   \<and> tripTable (snd (acquireLock parisRequest 1 staleStore))
       = [staleTrip\<lparr>regenLockUntil := Some 121000\<rparr>]
   \<and> step twoThenRest noFault parisRequest (AtAcquire 1 staleTrip) staleStore
       = (AtFetch 1 staleTrip ''culture'', snd (acquireLock parisRequest 1 staleStore))
   \<and> status (fst (regenerate twoThenRest noFault parisRequest staleStore)) = 200
   \<and> planPersisted 1 2 parisPlan (snd (regenerate twoThenRest noFault parisRequest staleStore))
   \<and> lockCleared 1 7 (snd (regenerate twoThenRest noFault parisRequest staleStore))
   \<and> tripTable (snd (regenerate twoThenRest noFault parisRequest staleStore)) = [parisTrip]"
proof -
  have h: "distinct (map t_id (tripTable staleStore))" "staleTrip \<in> set (tripTable staleStore)"
    "t_id staleTrip = 1" "t_userId staleTrip = req_userId parisRequest"
    by (simp_all add: example_defs staleTrip_def staleStore_def)
  have e: "regenLockUntil staleTrip = Some 500" "(500::int) < req_now parisRequest"
    "req_idParam parisRequest = Integer 1" "(0::int) < 1"
    "req_dateNow parisRequest = 1000" "tripTable staleStore = [staleTrip]"
    "req_userId parisRequest = 7" "t_daysCount staleTrip = 2"
    "effectiveInterests parisRequest staleTrip = ''culture''"
    by (simp_all add: example_defs staleTrip_def staleStore_def effectiveInterests_def)
  have c: "\<forall>op. \<not> noFault op" "\<not> noFault OpAcquireLock"
    "\<not> overrideInvalid (req_interests parisRequest)"
    "generatedPlan twoThenRest (findManyActivities (t_destination staleTrip) staleStore) staleTrip
       (effectiveInterests parisRequest staleTrip) = Inr parisPlan"
    "wellFormed staleStore"
    by (simp_all add: example_defs staleTrip_def staleStore_def handler_defs parisPlan_def
          wellFormed_def)
  have after: "tripTable (snd (regenerate twoThenRest noFault parisRequest staleStore)) = [parisTrip]"
    by (simp add: example_defs staleTrip_def staleStore_def handler_defs)
  from e c after show ?thesis
    using lock_self_expiry [OF h, of twoThenRest noFault parisPlan] h(3)
    by simp
qed

section \<open>The planner service\<close>

text \<open>
  Modelled from the spec: the planner service (\<open>generateItinerary\<close>, imported by the
  routes from \<open>services/planner.service\<close>) is not among the sources. The definitions of
  this section follow section 4.2 of the specification, the allocation engine, on an
  interest profile that is already a set of category tokens.
\<close>

subsection \<open>Allocation engine\<close>

text \<open>Modelled from the spec: the daily capacity, a design constant (``e.g. 8 hours'').\<close>

definition dailyCapacity :: rat where
  "dailyCapacity = 8"

text \<open>Modelled from the spec: step 1, +2 when the category is in the interest profile.\<close>

definition score :: "string set \<Rightarrow> activity \<Rightarrow> int" where
  "score profile a = (if a_type a \<in> profile then 2 else 0)"

text \<open>
  Modelled from the spec: step 2. The pool is sorted by descending score, then ascending
  price level, then ascending name; the sort is stable.
\<close>

definition rankKey :: "string set \<Rightarrow> activity \<Rightarrow> int \<times> int \<times> string" where
  "rankKey profile a = (- score profile a, priceLevel a, a_name a)"

definition rank :: "string set \<Rightarrow> activity list \<Rightarrow> activity list" where
  "rank profile acts = sort_key (rankKey profile) acts"

definition dayTotal :: "activity list \<Rightarrow> rat" where
  "dayTotal day = sum_list (map durationHours day)"

text \<open>
  Modelled from the spec: step 3, the first day, in day order, whose running total plus
  the duration of the activity does not exceed the capacity; none when no day accepts it.
\<close>

fun placeFirstFit :: "activity \<Rightarrow> activity list list \<Rightarrow> activity list list option" where
  "placeFirstFit a [] = None"
| "placeFirstFit a (day # rest) =
     (if dayTotal day + durationHours a \<le> dailyCapacity then Some ((day @ [a]) # rest)
      else map_option ((#) day) (placeFirstFit a rest))"

text \<open>
  Modelled from the spec: steps 3 and 4, one pass over the sorted pool with the set of
  the activities already used; the pass ends when the pool is exhausted or all days are
  at capacity. An activity that no day accepts is skipped.
\<close>

fun walk :: "activity list \<Rightarrow> int set \<Rightarrow> activity list list \<Rightarrow> activity list list" where
  "walk [] used ds = ds"
| "walk (a # pool) used ds =
     (if list_all (\<lambda>day. dailyCapacity \<le> dayTotal day) ds then ds
      else if a_id a \<in> used then walk pool used ds
      else (case placeFirstFit a ds of
              None \<Rightarrow> walk pool used ds
            | Some ds' \<Rightarrow> walk pool (insert (a_id a) used) ds'))"

text \<open>Decimal digits of a natural number, for the text of the warning.\<close>

fun showNat :: "nat \<Rightarrow> string" where
  "showNat n =
     (if n < 10 then [''0123456789'' ! n] else showNat (n div 10) @ [''0123456789'' ! (n mod 10)])"

declare showNat.simps [simp del]

text \<open>Modelled from the spec: step 5, the warning when a day remains empty.\<close>

definition shortfall :: "activity list list \<Rightarrow> string option" where
  "shortfall ds =
     (let empty = length (filter (\<lambda>day. day = []) ds)
      in if 0 < empty then
           Some (''insufficient activities for '' @ showNat empty @ '' of ''
                   @ showNat (length ds) @ '' days'')
         else None)"

text \<open>
  Modelled from the spec: \<open>allocate(activities, daysCount, interestProfile)\<close>; a day
  count that is not positive is the usage fault.
\<close>

definition allocate :: "activity list \<Rightarrow> int \<Rightarrow> string set \<Rightarrow> fault + plan" where
  "allocate acts n profile =
     (if n \<le> 0 then Inl PlannerFault
      else
        let ds = walk (rank profile acts) {} (replicate (nat n) [])
        in Inr \<lparr>days = ds, warning = shortfall ds\<rparr>)"

subsection \<open>The capacity of a day\<close>

definition withinCapacity :: "activity list list \<Rightarrow> bool" where
  "withinCapacity ds \<longleftrightarrow> list_all (\<lambda>day. dayTotal day \<le> dailyCapacity) ds"

lemma placeFirstFit_capacity:
  "placeFirstFit a ds = Some ds' \<Longrightarrow> withinCapacity ds \<Longrightarrow> withinCapacity ds'"
proof (induction ds arbitrary: ds')
  case Nil
  then show ?case by simp
next
  case (Cons day rest)
  show ?case
  proof (cases "dayTotal day + durationHours a \<le> dailyCapacity")
    case True
    with Cons.prems show ?thesis
      by (auto simp: withinCapacity_def dayTotal_def)
  next
    case False
    with Cons.prems obtain rest' where "placeFirstFit a rest = Some rest'" and "ds' = day # rest'"
      by auto
    with Cons.IH [of rest'] Cons.prems(2) show ?thesis
      by (simp add: withinCapacity_def)
  qed
qed

lemma placeFirstFit_members:
  "placeFirstFit a ds = Some ds' \<Longrightarrow>
   length ds' = length ds \<and> \<Union> (set ` set ds') \<subseteq> insert a (\<Union> (set ` set ds))"
proof (induction ds arbitrary: ds')
  case Nil
  then show ?case by simp
next
  case (Cons day rest)
  show ?case
  proof (cases "dayTotal day + durationHours a \<le> dailyCapacity")
    case True
    with Cons.prems show ?thesis
      by auto
  next
    case False
    with Cons.prems obtain rest' where r: "placeFirstFit a rest = Some rest'" and "ds' = day # rest'"
      by auto
    with Cons.IH [OF r] show ?thesis
      by auto
  qed
qed

lemma walk_capacity:
  "withinCapacity ds \<Longrightarrow> withinCapacity (walk pool used ds)"
proof (induction pool arbitrary: used ds)
  case Nil
  then show ?case by simp
next
  case (Cons a pool)
  show ?case
  proof (cases "placeFirstFit a ds")
    case None
    with Cons show ?thesis by simp
  next
    case (Some ds')
    with Cons.prems have "withinCapacity ds'"
      by (simp add: placeFirstFit_capacity)
    with Cons.IH Cons.prems Some show ?thesis
      by simp
  qed
qed

lemma walk_members:
  "length (walk pool used ds) = length ds \<and>
   \<Union> (set ` set (walk pool used ds)) \<subseteq> set pool \<union> \<Union> (set ` set ds)"
proof (induction pool arbitrary: used ds)
  case Nil
  then show ?case by simp
next
  case (Cons a pool)
  show ?case
  proof (cases "placeFirstFit a ds")
    case None
    with Cons.IH [of used ds] show ?thesis
      by auto
  next
    case (Some ds')
    from placeFirstFit_members [OF Some] Cons.IH [of used ds] Cons.IH [of "insert (a_id a) used" ds']
    show ?thesis
      using Some by (simp add: subset_iff) blast
  qed
qed

lemma member_within_total:
  "\<forall>b \<in> set day. 0 \<le> durationHours b \<Longrightarrow> a \<in> set day \<Longrightarrow> durationHours a \<le> dayTotal day"
proof (induction day)
  case Nil
  then show ?case by simp
next
  case (Cons b day)
  have rest: "0 \<le> sum_list (map durationHours day)"
    using Cons.prems(1) by (intro sum_list_nonneg) auto
  show ?case
  proof (cases "a = b")
    case True
    with rest show ?thesis
      by (simp add: dayTotal_def)
  next
    case False
    with Cons have "durationHours a \<le> dayTotal day"
      by simp
    moreover from Cons.prems(1) have "0 \<le> durationHours b"
      by simp
    ultimately show ?thesis
      by (simp add: dayTotal_def)
  qed
qed

text \<open>An activity longer than a day.\<close>

definition versailles :: activity where
  "versailles = \<lparr>a_id = 4, a_destination = ''Paris'', a_name = ''Versailles Day Trip'',
                  a_type = ''culture'', durationHours = 9, priceLevel = 4\<rparr>"

text \<open>
  C8. In every plan the allocation engine returns there is one list per requested day and
  the durations of the activities of each day sum to at most the daily capacity; and when
  the durations of the pool are positive, as the data model requires, an activity longer
  than the daily capacity is in no day of the plan.
\<close>

theorem allocate_within_capacity:
  assumes "allocate acts n profile = Inr p"
  shows "length (days p) = nat n
       \<and> (\<forall>day \<in> set (days p). dayTotal day \<le> dailyCapacity)
       \<and> ((\<forall>a \<in> set acts. 0 < durationHours a) \<longrightarrow>
            (\<forall>a \<in> set acts. dailyCapacity < durationHours a \<longrightarrow>
               (\<forall>day \<in> set (days p). a \<notin> set day)))"
proof -
  let ?ds = "walk (rank profile acts) {} (replicate (nat n) [])"
  from assms have p: "days p = ?ds"
    by (auto simp: allocate_def Let_def split: if_splits)
  have "withinCapacity (replicate (nat n) [])"
    by (simp add: withinCapacity_def dayTotal_def dailyCapacity_def list_all_iff)
  then have cap: "withinCapacity ?ds"
    by (rule walk_capacity)
  have len: "length ?ds = nat n"
    using walk_members [of "rank profile acts" "{}" "replicate (nat n) []"] by simp
  have sub: "\<Union> (set ` set ?ds) \<subseteq> set acts"
    using walk_members [of "rank profile acts" "{}" "replicate (nat n) []"]
    by (auto simp: rank_def)
  have never: "a \<notin> set day"
    if pos: "\<forall>a \<in> set acts. 0 < durationHours a" and a: "a \<in> set acts"
      and long: "dailyCapacity < durationHours a" and day: "day \<in> set ?ds" for a day
  proof
    assume mem: "a \<in> set day"
    from sub day pos have "\<forall>b \<in> set day. 0 \<le> durationHours b"
      by (auto simp: less_imp_le)
    then have "durationHours a \<le> dayTotal day"
      using mem by (rule member_within_total)
    moreover from cap day have "dayTotal day \<le> dailyCapacity"
      by (simp add: withinCapacity_def list_all_iff)
    ultimately show False
      using long by simp
  qed
  from cap have "\<forall>day \<in> set ?ds. dayTotal day \<le> dailyCapacity"
    by (simp add: withinCapacity_def list_all_iff)
  with len never show ?thesis
    unfolding p by blast
qed

theorem allocate_within_capacity_witness:
  "allocate [versailles, louvre, eiffel, montmartre] 2 {''culture''}
     = Inr \<lparr>days = [[eiffel, louvre, montmartre], []],
             warning = Some ''insufficient activities for 1 of 2 days''\<rparr>
   \<and> dailyCapacity < durationHours versailles
   \<and> dayTotal [eiffel, louvre, montmartre] \<le> dailyCapacity
   \<and> versailles \<notin> set [eiffel, louvre, montmartre]"
proof -
  have run: "allocate [versailles, louvre, eiffel, montmartre] 2 {''culture''}
     = Inr \<lparr>days = [[eiffel, louvre, montmartre], []],
             warning = Some ''insufficient activities for 1 of 2 days''\<rparr>"
    by code_simp
  have pos: "\<forall>a \<in> set [versailles, louvre, eiffel, montmartre]. 0 < durationHours a"
    by (simp add: example_defs versailles_def)
  have long: "dailyCapacity < durationHours versailles"
    by (simp add: dailyCapacity_def versailles_def)
  from allocate_within_capacity [OF run] pos long run show ?thesis
    by simp
qed

subsection \<open>The order of the pool\<close>





end
